theory Spec2Isabelle
  imports Main "HOL-Library.Word"
begin

unbundle bit_operations_syntax

section \<open>Memory, machine words and the memory provider\<close>

text \<open>
  The allocator of \<^verbatim>\<open>mm.c\<close> keeps all of its bookkeeping inside the memory it
  manages. Memory is modelled as a total map from byte addresses to bytes; addresses are
  integers (so that pointer subtraction never truncates), \<^verbatim>\<open>unsigned int\<close> is a
  32-bit word and \<^verbatim>\<open>size_t\<close> a 64-bit word (LP64). Header and footer words are
  stored little-endian.
\<close>

type_synonym addr = int
type_synonym byte = "8 word"
type_synonym u32 = "32 word"
type_synonym size_t = "64 word"
type_synonym memory = "addr \<Rightarrow> byte"

definition NULL :: addr where
  "NULL = 0"

record state =
  mem :: memory
  heapL :: addr
  trav :: addr
  mem_brk :: addr
  mem_max_addr :: addr

text \<open>The constants of \<^verbatim>\<open>mm.c\<close>.\<close>

abbreviation (input) HFSIZE :: "'a::numeral" where
  "HFSIZE \<equiv> 4"

abbreviation (input) DWORD :: "'a::numeral" where
  "DWORD \<equiv> 8"

definition CHUNKSIZE :: size_t where
  "CHUNKSIZE = push_bit 12 1"

definition HF :: "size_t \<Rightarrow> size_t \<Rightarrow> size_t" where
  "HF sz alloc = sz OR alloc"

definition READ :: "memory \<Rightarrow> addr \<Rightarrow> u32" where
  "READ m a = ucast (m a) OR push_bit 8 (ucast (m (a + 1)))
     OR push_bit 16 (ucast (m (a + 2))) OR push_bit 24 (ucast (m (a + 3)))"

definition WRITE :: "memory \<Rightarrow> addr \<Rightarrow> u32 \<Rightarrow> memory" where
  "WRITE m a v = m(a := ucast v, a + 1 := ucast (drop_bit 8 v),
     a + 2 := ucast (drop_bit 16 v), a + 3 := ucast (drop_bit 24 v))"

definition GET_SIZE :: "memory \<Rightarrow> addr \<Rightarrow> u32" where
  "GET_SIZE m a = READ m a AND NOT 7"

definition GET_ALLOC :: "memory \<Rightarrow> addr \<Rightarrow> u32" where
  "GET_ALLOC m a = READ m a AND 1"

definition HEAD :: "addr \<Rightarrow> addr" where
  "HEAD ptr = ptr - HFSIZE"

definition FOOT :: "memory \<Rightarrow> addr \<Rightarrow> addr" where
  "FOOT m ptr = ptr + uint (GET_SIZE m (HEAD ptr)) - DWORD"

definition NEXT :: "memory \<Rightarrow> addr \<Rightarrow> addr" where
  "NEXT m ptr = ptr + uint (GET_SIZE m (ptr - HFSIZE))"

definition PREV :: "memory \<Rightarrow> addr \<Rightarrow> addr" where
  "PREV m ptr = ptr - uint (GET_SIZE m (ptr - DWORD))"

text \<open>
  Modelled from the spec: \<^verbatim>\<open>mem_sbrk\<close> of \<^verbatim>\<open>memlib.c\<close>, which is not part of
  the sources at hand. The provider grants \<open>incr\<close> bytes directly after everything it
  has granted before and returns the old break, or fails (returning \<open>-1\<close>) without any
  side effect when the region cannot grow beyond \<open>mem_max_addr\<close>.
\<close>

definition mem_sbrk :: "state \<Rightarrow> size_t \<Rightarrow> state \<times> addr" where
  "mem_sbrk s incr =
     (if mem_brk s + uint incr > mem_max_addr s then (s, -1)
      else (s\<lparr>mem_brk := mem_brk s + uint incr\<rparr>, mem_brk s))"

section \<open>The allocator\<close>

text \<open>
  \<^verbatim>\<open>coalesce\<close>: boundary-tag coalescing of the block at \<open>ptr\<close> with its free
  neighbours. The writes are sequenced as in the source, every address being computed
  from the memory as it stands at that point.
\<close>

definition coalesce :: "state \<Rightarrow> addr \<Rightarrow> state \<times> addr" where
  "coalesce s ptr =
     (let m = mem s;
          prev_alloc = (ucast (GET_ALLOC m (FOOT m (PREV m ptr))) :: size_t);
          next_alloc = (ucast (GET_ALLOC m (HEAD (NEXT m ptr))) :: size_t);
          sz = (ucast (GET_SIZE m (HEAD ptr)) :: size_t)
      in if prev_alloc \<noteq> 0 \<and> next_alloc \<noteq> 0 then (s, ptr)
         else
           let (m', ptr') =
             (if prev_alloc = 0 \<and> next_alloc \<noteq> 0 then
                let sz = sz + ucast (GET_SIZE m (HEAD (PREV m ptr)));
                    m1 = WRITE m (FOOT m ptr) (ucast (HF sz 0));
                    m2 = WRITE m1 (HEAD (PREV m1 ptr)) (ucast (HF sz 0))
                in (m2, PREV m2 ptr)
              else if prev_alloc \<noteq> 0 \<and> next_alloc = 0 then
                let sz = sz + ucast (GET_SIZE m (HEAD (NEXT m ptr)));
                    m1 = WRITE m (HEAD ptr) (ucast (HF sz 0));
                    m2 = WRITE m1 (FOOT m1 ptr) (ucast (HF sz 0))
                in (m2, ptr)
              else
                let sz = sz + ucast (GET_SIZE m (HEAD (PREV m ptr))
                                      + GET_SIZE m (FOOT m (NEXT m ptr)));
                    m1 = WRITE m (HEAD (PREV m ptr)) (ucast (HF sz 0));
                    m2 = WRITE m1 (FOOT m1 (NEXT m1 ptr)) (ucast (HF sz 0))
                in (m2, PREV m2 ptr));
               s' = s\<lparr>mem := m'\<rparr>
           in (if trav s' > ptr' \<and> trav s' < NEXT m' ptr' then s'\<lparr>trav := ptr'\<rparr> else s',
               ptr'))"

text \<open>\<^verbatim>\<open>grow_heap\<close>: extend the heap by \<open>words\<close> 4-byte words (rounded up to even).\<close>

definition grow_heap :: "state \<Rightarrow> size_t \<Rightarrow> state \<times> addr" where
  "grow_heap s words =
     (let sz = (if words mod 2 \<noteq> 0 then (words + 1) * HFSIZE else words * HFSIZE);
          (s1, ptr) = mem_sbrk s sz
      in if ptr = -1 then (s1, NULL)
         else
           let m1 = WRITE (mem s1) (HEAD ptr) (ucast (HF sz 0));
               m2 = WRITE m1 (FOOT m1 ptr) (ucast (HF sz 0));
               m3 = WRITE m2 (HEAD (NEXT m2 ptr)) (ucast (HF 0 1))
           in coalesce (s1\<lparr>mem := m3\<rparr>) ptr)"

text \<open>
  \<^verbatim>\<open>fit\<close>: the next-fit search. Its two loops may run forever on a malformed heap,
  so they are partial functions: \<open>None\<close> stands for a search that never returns. The
  first loop reports whether it stopped at a fitting block.
\<close>

definition fits :: "memory \<Rightarrow> addr \<Rightarrow> size_t \<Rightarrow> bool" where
  "fits m p adj_size \<longleftrightarrow>
     GET_ALLOC m (HEAD p) = 0 \<and> adj_size \<le> ucast (GET_SIZE m (HEAD p))"

partial_function (option) fit_fwd :: "state \<Rightarrow> size_t \<Rightarrow> (state \<times> bool) option" where
  "fit_fwd s adj_size =
     (if GET_SIZE (mem s) (HEAD (trav s)) > 0 then
        (if fits (mem s) (trav s) adj_size then Some (s, True)
         else fit_fwd (s\<lparr>trav := NEXT (mem s) (trav s)\<rparr>) adj_size)
      else Some (s, False))"

partial_function (option) fit_wrap :: "state \<Rightarrow> addr \<Rightarrow> size_t \<Rightarrow> (state \<times> addr) option" where
  "fit_wrap s origtrav adj_size =
     (if trav s < origtrav then
        (if fits (mem s) (trav s) adj_size then Some (s, trav s)
         else fit_wrap (s\<lparr>trav := NEXT (mem s) (trav s)\<rparr>) origtrav adj_size)
      else Some (s, NULL))"

declare fit_fwd.simps [code]
declare fit_wrap.simps [code]

definition fit :: "state \<Rightarrow> size_t \<Rightarrow> (state \<times> addr) option" where
  "fit s adj_size =
     (let origtrav = trav s
      in case fit_fwd s adj_size of
           None \<Rightarrow> None
         | Some (s1, found) \<Rightarrow>
             if found then Some (s1, trav s1)
             else fit_wrap (s1\<lparr>trav := heapL s1\<rparr>) origtrav adj_size)"

text \<open>\<^verbatim>\<open>put\<close>: place a block of \<open>adj_size\<close> bytes at the free block \<open>ptr\<close>.\<close>

definition put :: "state \<Rightarrow> addr \<Rightarrow> size_t \<Rightarrow> state" where
  "put s ptr adj_size =
     (let m = mem s;
          csize = (ucast (GET_SIZE m (HEAD ptr)) :: size_t)
      in if csize - adj_size \<ge> 2 * DWORD then
           let m1 = WRITE m (HEAD ptr) (ucast (HF adj_size 1));
               m2 = WRITE m1 (FOOT m1 ptr) (ucast (HF adj_size 1));
               ptr' = NEXT m2 ptr;
               m3 = WRITE m2 (HEAD ptr') (ucast (HF (csize - adj_size) 0));
               m4 = WRITE m3 (FOOT m3 ptr') (ucast (HF (csize - adj_size) 0))
           in s\<lparr>mem := m4\<rparr>
         else
           let m1 = WRITE m (HEAD ptr) (ucast (HF csize 1));
               m2 = WRITE m1 (FOOT m1 ptr) (ucast (HF csize 1))
           in s\<lparr>mem := m2\<rparr>)"

text \<open>\<^verbatim>\<open>mm_init\<close>: returns \<open>0\<close> on success and \<open>-1\<close> on failure.\<close>

definition mm_init :: "state \<Rightarrow> state \<times> int" where
  "mm_init s =
     (let (s1, p) = mem_sbrk s (4 * HFSIZE);
          s2 = s1\<lparr>heapL := p\<rparr>
      in if p = -1 then (s2, -1)
         else
           let m1 = WRITE (mem s2) (heapL s2) 0;
               m2 = WRITE m1 (heapL s2 + 1 * HFSIZE) (ucast (HF DWORD 1));
               m3 = WRITE m2 (heapL s2 + 2 * HFSIZE) (ucast (HF DWORD 1));
               m4 = WRITE m3 (heapL s2 + 3 * HFSIZE) (ucast (HF 0 1));
               s3 = s2\<lparr>mem := m4, heapL := heapL s2 + 2 * HFSIZE\<rparr>;
               s4 = s3\<lparr>trav := heapL s3\<rparr>;
               (s5, r) = grow_heap s4 (CHUNKSIZE div HFSIZE)
           in if r = NULL then (s5, -1) else (s5, 0))"

text \<open>
  The adjusted block size of \<^verbatim>\<open>mm_malloc\<close>, computed in the unsigned arithmetic of
  \<^verbatim>\<open>size_t\<close>; it is stated for every word length.
\<close>

definition adjusted_size :: "'a::len word \<Rightarrow> 'a word" where
  "adjusted_size sz =
     (if sz \<le> DWORD then 2 * DWORD else DWORD * ((sz + DWORD + (DWORD - 1)) div DWORD))"

definition mm_malloc :: "state \<Rightarrow> size_t \<Rightarrow> (state \<times> addr) option" where
  "mm_malloc s0 sz =
     (let s = (if heapL s0 = 0 then fst (mm_init s0) else s0)
      in if sz = 0 then Some (s, NULL)
         else
           let adj_size = adjusted_size sz
           in case fit s adj_size of
                None \<Rightarrow> None
              | Some (s1, ptr) \<Rightarrow>
                  if ptr \<noteq> NULL then Some (put s1 ptr adj_size, ptr)
                  else
                    let growsize = (if adj_size > CHUNKSIZE then adj_size else CHUNKSIZE);
                        (s2, ptr) = grow_heap s1 (growsize div HFSIZE)
                    in if ptr = NULL then Some (s2, NULL)
                       else Some (put s2 ptr adj_size, ptr))"

definition mm_free :: "state \<Rightarrow> addr \<Rightarrow> state" where
  "mm_free s0 ptr =
     (if ptr = 0 then s0
      else
        let sz = (ucast (GET_SIZE (mem s0) (HEAD ptr)) :: size_t);
            s = (if heapL s0 = 0 then fst (mm_init s0) else s0);
            m1 = WRITE (mem s) (HEAD ptr) (ucast (HF sz 0));
            m2 = WRITE m1 (FOOT m1 ptr) (ucast (HF sz 0))
        in fst (coalesce (s\<lparr>mem := m2\<rparr>) ptr))"

text \<open>\<^verbatim>\<open>memcpy\<close> of \<open>n\<close> bytes from \<open>src\<close> to \<open>dst\<close>.\<close>

definition memcpy :: "memory \<Rightarrow> addr \<Rightarrow> addr \<Rightarrow> size_t \<Rightarrow> memory" where
  "memcpy m dst src n = (\<lambda>a. if dst \<le> a \<and> a < dst + uint n then m (src + (a - dst)) else m a)"

text \<open>
  The number of bytes \<^verbatim>\<open>mm_realloc\<close> copies: the local \<^verbatim>\<open>oldsize\<close> at the
  call of \<^verbatim>\<open>memcpy\<close>.
\<close>

definition copy_len :: "memory \<Rightarrow> addr \<Rightarrow> size_t \<Rightarrow> size_t" where
  "copy_len m ptr sz =
     (let oldsize = (ucast (GET_SIZE m (HEAD ptr)) :: size_t)
      in if sz < oldsize then sz else oldsize)"

definition mm_realloc :: "state \<Rightarrow> addr \<Rightarrow> size_t \<Rightarrow> (state \<times> addr) option" where
  "mm_realloc s ptr sz =
     (if sz = 0 then Some (mm_free s ptr, 0)
      else if ptr = NULL then mm_malloc s sz
      else
        case mm_malloc s sz of
          None \<Rightarrow> None
        | Some (s1, newptr) \<Rightarrow>
            if newptr = 0 then Some (s1, 0)
            else
              let oldsize = copy_len (mem s1) ptr sz;
                  s2 = s1\<lparr>mem := memcpy (mem s1) newptr ptr oldsize\<rparr>
              in Some (mm_free s2 ptr, newptr))"

text \<open>A fresh process: no heap yet, both globals zero, the provider at \<open>start\<close>.\<close>

definition fresh :: "memory \<Rightarrow> addr \<Rightarrow> addr \<Rightarrow> state" where
  "fresh m start limit = \<lparr>mem = m, heapL = 0, trav = 0, mem_brk = start, mem_max_addr = limit\<rparr>"

section \<open>The block list\<close>

text \<open>
  A block is the pair of its size in bytes and its allocated flag. \<open>tag\<close> is the
  header and footer word that encodes it; \<open>chain m p bs\<close> says that memory \<open>m\<close> holds
  the blocks \<open>bs\<close> one after the other, the first with payload pointer \<open>p\<close>, each with
  a matching header and footer.
\<close>

type_synonym block = "int \<times> bool"

definition tag :: "int \<Rightarrow> bool \<Rightarrow> u32" where
  "tag n a = word_of_int n OR (if a then 1 else 0)"

definition blk :: "memory \<Rightarrow> addr \<Rightarrow> block \<Rightarrow> bool" where
  "blk m p b \<longleftrightarrow>
     8 \<le> fst b \<and> 8 dvd fst b \<and> fst b < 2 ^ 32 \<and>
     READ m (p - 4) = tag (fst b) (snd b) \<and> READ m (p + fst b - 8) = tag (fst b) (snd b)"

fun chain :: "memory \<Rightarrow> addr \<Rightarrow> block list \<Rightarrow> bool" where
  "chain m p [] = True"
| "chain m p (b # bs) = (blk m p b \<and> chain m (p + fst b) bs)"

definition total :: "block list \<Rightarrow> int" where
  "total bs = sum_list (map fst bs)"

fun starts :: "addr \<Rightarrow> block list \<Rightarrow> addr list" where
  "starts p [] = []"
| "starts p (b # bs) = p # starts (p + fst b) bs"

text \<open>
  The whole heap seen from \<open>heapL\<close>: the start sentinel (an allocated block of 8
  bytes whose payload pointer is \<open>heapL\<close>), the real blocks, and the end sentinel (a
  header of size 0 marked allocated).
\<close>

definition layout :: "memory \<Rightarrow> addr \<Rightarrow> block list \<Rightarrow> bool" where
  "layout m h bs \<longleftrightarrow>
     chain m h ((8, True) # bs) \<and> READ m (h + 8 + total bs - 4) = tag 0 True"

fun no_adj_free :: "block list \<Rightarrow> bool" where
  "no_adj_free (b1 # b2 # bs) = ((snd b1 \<or> snd b2) \<and> no_adj_free (b2 # bs))"
| "no_adj_free bs = True"

text \<open>
  Next fit as the specification words it: the first free block of at least \<open>k\<close> bytes
  at or after the cursor, else the first such block among the real blocks before the
  cursor, else nothing. \<open>before\<close> and \<open>after\<close> are the real blocks before the cursor
  and from the cursor on; \<open>first\<close> is the payload pointer of the first real block.
\<close>

fun first_fit :: "addr \<Rightarrow> block list \<Rightarrow> int \<Rightarrow> addr option" where
  "first_fit p [] k = None"
| "first_fit p (b # bs) k = (if \<not> snd b \<and> k \<le> fst b then Some p else first_fit (p + fst b) bs k)"

definition next_fit :: "addr \<Rightarrow> block list \<Rightarrow> block list \<Rightarrow> int \<Rightarrow> addr option" where
  "next_fit first before after k =
     (case first_fit (first + total before) after k of
        Some q \<Rightarrow> Some q
      | None \<Rightarrow> first_fit first before k)"

section \<open>Reading and writing words\<close>

lemma READ_WRITE_same: "READ (WRITE m a v) a = v"
proof (rule bit_word_eqI)
  fix n :: nat
  assume n: "n < LENGTH(32)"
  consider "n < 8" | "8 \<le> n" "n < 16" | "16 \<le> n" "n < 24" | "24 \<le> n" "n < 32"
    using n by fastforce
  then show "bit (READ (WRITE m a v) a) n = bit v n"
    by cases (auto simp add: READ_def WRITE_def bit_simps)
qed

lemma READ_WRITE_other: "a + 4 \<le> b \<or> b + 4 \<le> a \<Longrightarrow> READ (WRITE m a v) b = READ m b"
  by (auto simp add: READ_def WRITE_def)

lemma READ_WRITE: "a = b \<or> a + 4 \<le> b \<or> b + 4 \<le> a \<Longrightarrow>
    READ (WRITE m a v) b = (if a = b then v else READ m b)"
  using READ_WRITE_same READ_WRITE_other by auto

lemma READ_zero: "READ (\<lambda>_. 0) a = 0"
  by (simp add: READ_def)

section \<open>Header and footer words\<close>

lemma tag_size: "8 dvd n \<Longrightarrow> tag n a AND NOT 7 = word_of_int n"
proof (rule bit_word_eqI)
  fix k :: nat
  assume d: "8 dvd n" and k: "k < LENGTH(32)"
  from d obtain j where n: "n = 8 * j" by (auto simp: dvd_def)
  have p: "(word_of_int n :: u32) = push_bit 3 (word_of_int j)"
    by (simp add: n push_bit_eq_mult)
  have s: "(7 :: u32) = mask 3" by (simp add: mask_eq_exp_minus_1)
  show "bit (tag n a AND NOT 7) k = bit (word_of_int n :: u32) k"
    unfolding tag_def p s by (auto simp add: bit_simps)
qed

lemma tag_alloc: "8 dvd n \<Longrightarrow> tag n a AND 1 = (if a then 1 else 0)"
proof (rule bit_word_eqI)
  fix k :: nat
  assume d: "8 dvd n" and k: "k < LENGTH(32)"
  from d obtain j where n: "n = 8 * j" by (auto simp: dvd_def)
  have p: "(word_of_int n :: u32) = push_bit 3 (word_of_int j)"
    by (simp add: n push_bit_eq_mult)
  show "bit (tag n a AND 1) k = bit (if a then 1 else 0 :: u32) k"
    unfolding tag_def p by (auto simp add: bit_simps)
qed

lemma HF_tag: "ucast (HF (word_of_int n :: size_t) (if a then 1 else 0)) = tag n a"
  unfolding HF_def tag_def
  by (rule bit_word_eqI) (auto simp add: bit_simps)

lemma uint_u32: "0 \<le> n \<Longrightarrow> n < 2 ^ 32 \<Longrightarrow> uint (word_of_int n :: u32) = n"
  by (simp add: uint_word_of_int take_bit_int_eq_self)

lemma ucast_u32:
  "0 \<le> n \<Longrightarrow> n < 2 ^ 32 \<Longrightarrow> (ucast (word_of_int n :: u32) :: size_t) = word_of_int n"
  by (metis uint_u32 of_int_uint ucast_eq)

section \<open>Chains of blocks\<close>

lemma tag_0_True: "tag 0 True = 1"
  by (simp add: tag_def)

lemma total_Nil [simp]: "total [] = 0"
  by (simp add: total_def)

lemma total_Cons [simp]: "total (b # bs) = fst b + total bs"
  by (simp add: total_def)

lemma total_append [simp]: "total (xs @ ys) = total xs + total ys"
  by (simp add: total_def)

lemma chain_total_nonneg: "chain m p bs \<Longrightarrow> 0 \<le> total bs"
  by (induction bs arbitrary: p) (auto simp: blk_def)

lemma chain_append: "chain m p (xs @ ys) \<longleftrightarrow> chain m p xs \<and> chain m (p + total xs) ys"
  by (induction xs arbitrary: p) (auto simp: add.assoc)

lemma blk_cong: "(\<And>a. p - 4 \<le> a \<Longrightarrow> a < p + fst b - 4 \<Longrightarrow> m' a = m a) \<Longrightarrow> 8 \<le> fst b \<Longrightarrow> blk m' p b = blk m p b"
  by (simp add: blk_def READ_def)

lemma chain_cong:
  "(\<And>a. p - 4 \<le> a \<Longrightarrow> a < p + total bs - 4 \<Longrightarrow> m' a = m a) \<Longrightarrow> chain m p bs \<Longrightarrow> chain m' p bs"
proof (induction bs arbitrary: p)
  case Nil
  then show ?case by simp
next
  case (Cons b bs)
  from Cons.prems(2) have b: "blk m p b" and c: "chain m (p + fst b) bs" by simp_all
  from c have t: "0 \<le> total bs" by (rule chain_total_nonneg)
  from b have f: "8 \<le> fst b" by (simp add: blk_def)
  have "blk m' p b"
    using b f t Cons.prems(1) by (subst blk_cong) auto
  moreover have "chain m' (p + fst b) bs"
    using c f t Cons.prems(1) by (intro Cons.IH) auto
  ultimately show ?case by simp
qed

lemma WRITE_outside: "a < w \<or> w + 4 \<le> a \<Longrightarrow> WRITE m w v a = m a"
  by (auto simp: WRITE_def)

lemma chain_WRITE:
  "w + 4 \<le> p - 4 \<or> p + total bs - 4 \<le> w \<Longrightarrow> chain m p bs \<Longrightarrow> chain (WRITE m w v) p bs"
  by (erule chain_cong[rotated]) (auto simp: WRITE_outside)


lemma blk_GET_SIZE:
  assumes "blk m p b"
  shows "uint (GET_SIZE m (HEAD p)) = fst b" and "GET_SIZE m (HEAD p) > 0"
    and "(ucast (GET_SIZE m (HEAD p)) :: size_t) = word_of_int (fst b)"
    and "GET_ALLOC m (HEAD p) = (if snd b then 1 else 0)"
proof -
  from assms have r: "READ m (p - 4) = tag (fst b) (snd b)" and d: "8 dvd fst b"
    and lo: "8 \<le> fst b" and hi: "fst b < 2 ^ 32"
    by (simp_all add: blk_def)
  have g: "GET_SIZE m (HEAD p) = word_of_int (fst b)"
    unfolding GET_SIZE_def HEAD_def r by (rule tag_size[OF d])
  show u: "uint (GET_SIZE m (HEAD p)) = fst b"
    using g lo hi by (simp add: uint_u32)
  show "GET_SIZE m (HEAD p) > 0"
    using u lo by (simp add: word_less_def)
  show "(ucast (GET_SIZE m (HEAD p)) :: size_t) = word_of_int (fst b)"
    using g lo hi by (simp add: ucast_u32)
  show "GET_ALLOC m (HEAD p) = (if snd b then 1 else 0)"
    unfolding GET_ALLOC_def HEAD_def r by (rule tag_alloc[OF d])
qed

lemma blk_NEXT: "blk m p b \<Longrightarrow> NEXT m p = p + fst b"
  using blk_GET_SIZE(1)[of m p b] by (simp add: NEXT_def HEAD_def)

lemma uint_size_t: "0 \<le> n \<Longrightarrow> n < 2 ^ 32 \<Longrightarrow> uint (word_of_int n :: size_t) = n"
  by (simp add: uint_word_of_int take_bit_int_eq_self)

lemma blk_fits: "blk m p b \<Longrightarrow> fits m p adj \<longleftrightarrow> \<not> snd b \<and> uint adj \<le> fst b"
proof -
  assume b: "blk m p b"
  then have "0 \<le> fst b" "fst b < 2 ^ 32" by (simp_all add: blk_def)
  then have "uint (word_of_int (fst b) :: size_t) = fst b" by (rule uint_size_t)
  then show ?thesis
    by (simp add: fits_def blk_GET_SIZE(3,4)[OF b] word_le_def)
qed

lemma end_GET_SIZE: "READ m (p - 4) = tag 0 True \<Longrightarrow> GET_SIZE m (HEAD p) = 0"
  by (simp add: GET_SIZE_def HEAD_def tag_def)

lemma fit_fwd_chain:
  "chain (mem s) (trav s) ys \<Longrightarrow> READ (mem s) (trav s + total ys - 4) = tag 0 True \<Longrightarrow>
   fit_fwd s adj =
     Some (case first_fit (trav s) ys (uint adj) of
             Some q \<Rightarrow> (s\<lparr>trav := q\<rparr>, True)
           | None \<Rightarrow> (s\<lparr>trav := trav s + total ys\<rparr>, False))"
proof (induction ys arbitrary: s)
  case Nil
  then show ?case
    by (subst fit_fwd.simps) (simp add: end_GET_SIZE)
next
  case (Cons b ys)
  from Cons.prems have b: "blk (mem s) (trav s) b" by simp
  show ?case
  proof (cases "\<not> snd b \<and> uint adj \<le> fst b")
    case True
    then show ?thesis
      by (subst fit_fwd.simps) (simp add: blk_GET_SIZE(2)[OF b] blk_fits[OF b])
  next
    case False
    let ?s = "s\<lparr>trav := trav s + fst b\<rparr>"
    have "fit_fwd ?s adj =
       Some (case first_fit (trav ?s) ys (uint adj) of
             Some q \<Rightarrow> (?s\<lparr>trav := q\<rparr>, True)
           | None \<Rightarrow> (?s\<lparr>trav := trav ?s + total ys\<rparr>, False))"
      using Cons.prems by (intro Cons.IH) (simp_all add: add.assoc)
    moreover from False have "\<not> fits (mem s) (trav s) adj"
      by (simp add: blk_fits[OF b])
    moreover from False have "first_fit (trav s) (b # ys) (uint adj) = first_fit (trav s + fst b) ys (uint adj)"
      by auto
    ultimately show ?thesis
      by (subst fit_fwd.simps)
        (simp add: blk_GET_SIZE(2)[OF b] blk_NEXT[OF b] add.assoc del: first_fit.simps
           split: option.split)
  qed
qed

lemma fit_wrap_chain:
  "chain (mem s) (trav s) xs \<Longrightarrow> origtrav = trav s + total xs \<Longrightarrow>
   fit_wrap s origtrav adj =
     Some (case first_fit (trav s) xs (uint adj) of
             Some q \<Rightarrow> (s\<lparr>trav := q\<rparr>, q)
           | None \<Rightarrow> (s\<lparr>trav := origtrav\<rparr>, NULL))"
proof (induction xs arbitrary: s)
  case Nil
  then show ?case
    by (subst fit_wrap.simps) simp
next
  case (Cons b xs)
  from Cons.prems have b: "blk (mem s) (trav s) b" and c: "chain (mem s) (trav s + fst b) xs"
    by simp_all
  from b have "8 \<le> fst b" by (simp add: blk_def)
  moreover from c have "0 \<le> total xs" by (rule chain_total_nonneg)
  ultimately have lt: "trav s < origtrav" using Cons.prems(2) by simp
  show ?case
  proof (cases "\<not> snd b \<and> uint adj \<le> fst b")
    case True
    then show ?thesis
      using lt by (subst fit_wrap.simps) (simp add: blk_fits[OF b])
  next
    case False
    let ?s = "s\<lparr>trav := trav s + fst b\<rparr>"
    have "fit_wrap ?s origtrav adj =
       Some (case first_fit (trav ?s) xs (uint adj) of
             Some q \<Rightarrow> (?s\<lparr>trav := q\<rparr>, q)
           | None \<Rightarrow> (?s\<lparr>trav := origtrav\<rparr>, NULL))"
      using Cons.prems c by (intro Cons.IH) (simp_all add: add.assoc)
    moreover from False have "\<not> fits (mem s) (trav s) adj"
      by (simp add: blk_fits[OF b])
    moreover from False have "first_fit (trav s) (b # xs) (uint adj) = first_fit (trav s + fst b) xs (uint adj)"
      by auto
    ultimately show ?thesis
      using lt by (subst fit_wrap.simps)
        (simp add: blk_NEXT[OF b] del: first_fit.simps split: option.split)
  qed
qed


lemma first_fit_None: "first_fit p bs k = None \<longleftrightarrow> \<not> (\<exists>b\<in>set bs. \<not> snd b \<and> k \<le> fst b)"
  by (induction bs arbitrary: p) auto

lemma next_fit_None:
  "next_fit p xs ys k = None \<longleftrightarrow> \<not> (\<exists>b\<in>set (xs @ ys). \<not> snd b \<and> k \<le> fst b)"
proof (cases "first_fit (p + total xs) ys k")
  case None
  then have a: "next_fit p xs ys k = first_fit p xs k"
    by (simp add: next_fit_def)
  from None first_fit_None[of "p + total xs" ys k]
  have c: "\<not> (\<exists>b\<in>set ys. \<not> snd b \<and> k \<le> fst b)"
    by blast
  show ?thesis
    unfolding a first_fit_None set_append bex_Un using c by blast
next
  case (Some q)
  then have "first_fit (p + total xs) ys k \<noteq> None" by simp
  with first_fit_None[of "p + total xs" ys k]
  have "\<exists>b\<in>set ys. \<not> snd b \<and> k \<le> fst b"
    by blast
  with Some show ?thesis
    by (auto simp: next_fit_def)
qed

lemma fit_at_block:
  assumes l: "layout (mem s) (heapL s) (before @ after)"
    and t: "trav s = heapL s + 8 + total before"
  shows "fit s adj =
     (case next_fit (heapL s + 8) before after (uint adj) of
        Some q \<Rightarrow> Some (s\<lparr>trav := q\<rparr>, q)
      | None \<Rightarrow> Some (s, NULL))"
proof -
  let ?h = "heapL s" and ?k = "uint adj"
  from l have pro: "blk (mem s) ?h (8, True)" and cb: "chain (mem s) (?h + 8) before"
    and ca: "chain (mem s) (trav s) after"
    and e: "READ (mem s) (trav s + total after - 4) = tag 0 True"
    by (simp_all add: layout_def chain_append t add.assoc)
  note fwd = fit_fwd_chain[OF ca e, of adj]
  show ?thesis
  proof (cases "first_fit (trav s) after ?k")
    case (Some q)
    with fwd show ?thesis
      by (simp add: fit_def next_fit_def t)
  next
    case None
    let ?s1 = "s\<lparr>trav := ?h\<rparr>"
    have "chain (mem ?s1) (trav ?s1) ((8, True) # before)"
      using pro cb by simp
    moreover have "trav s = trav ?s1 + total ((8, True) # before)"
      by (simp add: t)
    ultimately have "fit_wrap ?s1 (trav s) adj =
      Some (case first_fit (trav ?s1) ((8, True) # before) ?k of
             Some q \<Rightarrow> (?s1\<lparr>trav := q\<rparr>, q)
           | None \<Rightarrow> (?s1\<lparr>trav := trav s\<rparr>, NULL))"
      by (rule fit_wrap_chain)
    with None fwd show ?thesis
      by (simp add: fit_def next_fit_def t[symmetric] split: option.split)
  qed
qed

lemma fit_at_sentinel:
  assumes l: "layout (mem s) (heapL s) after"
    and t: "trav s = heapL s"
  shows "fit s adj =
     (case next_fit (heapL s + 8) [] after (uint adj) of
        Some q \<Rightarrow> Some (s\<lparr>trav := q\<rparr>, q)
      | None \<Rightarrow> Some (s, NULL))"
proof -
  let ?h = "heapL s" and ?k = "uint adj"
  from l have ca: "chain (mem s) (trav s) ((8, True) # after)"
    and e: "READ (mem s) (trav s + total ((8, True) # after) - 4) = tag 0 True"
    by (simp_all add: layout_def t add.assoc)
  note fwd = fit_fwd_chain[OF ca e, of adj]
  have ff: "first_fit (trav s) ((8, True) # after) ?k = first_fit (?h + 8) after ?k"
    by (simp add: t)
  show ?thesis
  proof (cases "first_fit (?h + 8) after ?k")
    case (Some q)
    with fwd ff show ?thesis
      by (simp add: fit_def next_fit_def del: first_fit.simps)
  next
    case None
    let ?s1 = "s\<lparr>trav := ?h\<rparr>"
    have "fit_wrap ?s1 (trav s) adj = Some (?s1, NULL)"
      by (subst fit_wrap.simps) (simp add: t)
    with None fwd ff show ?thesis
      by (simp add: fit_def next_fit_def t[symmetric] del: first_fit.simps(2))
  qed
qed

section \<open>Placement\<close>

lemma HF_tag_True: "ucast (HF (word_of_int n :: size_t) 1) = tag n True"
  using HF_tag[of n True] by simp

lemma HF_tag_False: "ucast (HF (word_of_int n :: size_t) 0) = tag n False"
  using HF_tag[of n False] by simp

lemma rd_tag:
  assumes r: "READ m a = tag n al" and d: "8 dvd n" and lo: "0 \<le> n" and hi: "n < 2 ^ 32"
  shows "uint (GET_SIZE m a) = n"
    and "(ucast (GET_SIZE m a) :: size_t) = word_of_int n"
    and "GET_ALLOC m a = (if al then 1 else 0)"
proof -
  have g: "GET_SIZE m a = word_of_int n"
    unfolding GET_SIZE_def r by (rule tag_size[OF d])
  show "uint (GET_SIZE m a) = n"
    using g lo hi by (simp add: uint_u32)
  show "(ucast (GET_SIZE m a) :: size_t) = word_of_int n"
    using g lo hi by (simp add: ucast_u32)
  show "GET_ALLOC m a = (if al then 1 else 0)"
    unfolding GET_ALLOC_def r by (rule tag_alloc[OF d])
qed

lemma size_t_le: "0 \<le> a \<Longrightarrow> a < 2 ^ 32 \<Longrightarrow> 0 \<le> b \<Longrightarrow> b < 2 ^ 32 \<Longrightarrow>
    (word_of_int a :: size_t) \<le> word_of_int b \<longleftrightarrow> a \<le> b"
  by (simp add: word_le_def uint_size_t)

lemma put_split:
  assumes r: "READ (mem s) (p - 4) = tag c al"
    and c: "8 dvd c" "c < 2 ^ 32"
    and k: "8 dvd k" "8 \<le> k" "k + 16 \<le> c"
  shows "put s p (word_of_int k) =
     s\<lparr>mem := WRITE (WRITE (WRITE (WRITE (mem s) (p - 4) (tag k True)) (p + k - 8) (tag k True))
                   (p + k - 4) (tag (c - k) False)) (p + c - 8) (tag (c - k) False)\<rparr>"
proof -
  let ?m = "mem s"
  let ?m1 = "WRITE ?m (p - 4) (tag k True)"
  let ?m2 = "WRITE ?m1 (p + k - 8) (tag k True)"
  let ?m3 = "WRITE ?m2 (p + k - 4) (tag (c - k) False)"
  from c k have c0: "0 \<le> c" and k0: "0 \<le> k" and k32: "k < 2 ^ 32"
    and d: "8 dvd c - k" "0 \<le> c - k" "c - k < 2 ^ 32" "16 \<le> c - k"
    by auto
  have cs: "(ucast (GET_SIZE ?m (HEAD p)) :: size_t) = word_of_int c"
    unfolding HEAD_def by (rule rd_tag(2)[OF r c(1) c0 c(2)])
  have ge: "(16 :: size_t) \<le> word_of_int c - word_of_int k"
    using size_t_le[of 16 "c - k"] d by simp
  have f1: "FOOT ?m1 p = p + k - 8"
    unfolding FOOT_def HEAD_def
    using k k0 k32 by (subst rd_tag(1)[where n = k and al = True]) (simp_all add: READ_WRITE_same)
  have r2: "READ ?m2 (p - 4) = tag k True"
    using k by (simp add: READ_WRITE)
  have n2: "NEXT ?m2 p = p + k"
    unfolding NEXT_def
    using k k0 k32 by (subst rd_tag(1)[OF r2]) simp_all
  have f3: "FOOT ?m3 (p + k) = p + c - 8"
    unfolding FOOT_def HEAD_def
    using d by (subst rd_tag(1)[where n = "c - k" and al = False]) (simp_all add: READ_WRITE_same)
  have hs: "ucast (HF (word_of_int c - word_of_int k :: size_t) 0) = tag (c - k) False"
    using HF_tag_False[of "c - k"] by simp
  show ?thesis
    unfolding put_def Let_def cs
    by (simp add: ge HF_tag_True hs f1 n2 f3 HEAD_def)
qed

lemma put_whole:
  assumes r: "READ (mem s) (p - 4) = tag c al"
    and c: "8 dvd c" "8 \<le> c" "c < 2 ^ 32"
    and k: "0 \<le> k" "k \<le> c" "c < k + 16"
  shows "put s p (word_of_int k) =
     s\<lparr>mem := WRITE (WRITE (mem s) (p - 4) (tag c True)) (p + c - 8) (tag c True)\<rparr>"
proof -
  let ?m = "mem s"
  let ?m1 = "WRITE ?m (p - 4) (tag c True)"
  from c k have c0: "0 \<le> c" 
    and d: "0 \<le> c - k" "c - k < 2 ^ 32" "\<not> 16 \<le> c - k"
    by auto
  have cs: "(ucast (GET_SIZE ?m (HEAD p)) :: size_t) = word_of_int c"
    unfolding HEAD_def by (rule rd_tag(2)[OF r c(1) c0 c(3)])
  have ge: "\<not> (16 :: size_t) \<le> word_of_int c - word_of_int k"
    using size_t_le[of 16 "c - k"] d by simp
  have f1: "FOOT ?m1 p = p + c - 8"
    unfolding FOOT_def HEAD_def
    using c c0 by (subst rd_tag(1)[where n = c and al = True]) (simp_all add: READ_WRITE_same)
  show ?thesis
    unfolding put_def Let_def cs
    by (simp add: ge HF_tag_True f1 HEAD_def)
qed


lemma READ_cong: "(\<And>b. a \<le> b \<Longrightarrow> b < a + 4 \<Longrightarrow> m' b = m b) \<Longrightarrow> READ m' a = READ m a"
  by (simp add: READ_def)

lemma layout_replace:
  assumes l: "layout m h (xs @ old @ ys)"
    and t: "total new = total old"
    and n: "chain m' (h + 8 + total xs) new"
    and o: "\<And>a. a < h + 8 + total xs - 4 \<or> h + 8 + total xs + total old - 4 \<le> a \<Longrightarrow> m' a = m a"
  shows "layout m' h (xs @ new @ ys)"
proof -
  let ?q = "h + 8 + total xs"
  from l have pro: "blk m h (8, True)" and cx: "chain m (h + 8) xs"
    and co: "chain m ?q old" and cy: "chain m (?q + total old) ys"
    and e: "READ m (?q + total old + total ys - 4) = tag 0 True"
    by (simp_all add: layout_def chain_append add.assoc)
  have x0: "0 \<le> total xs" and o0: "0 \<le> total old" and y0: "0 \<le> total ys"
    using cx co cy by (auto dest: chain_total_nonneg)
  have "blk m' h (8, True)"
    using pro x0 by (subst blk_cong[where m = m]) (auto intro: o)
  moreover have "chain m' (h + 8) xs"
    using cx by (rule chain_cong[rotated]) (auto intro: o)
  moreover have "chain m' (?q + total new) ys"
    unfolding t using cy by (rule chain_cong[rotated]) (use o0 in \<open>auto intro: o\<close>)
  moreover have "READ m' (?q + total old + total ys - 4) = READ m (?q + total old + total ys - 4)"
    using y0 by (intro READ_cong o) auto
  ultimately show ?thesis
    using n e t by (simp add: layout_def chain_append add.assoc)
qed

lemma starts_append: "starts p (xs @ ys) = starts p xs @ starts (p + total xs) ys"
  by (induction xs arbitrary: p) (auto simp: add.assoc)

lemma put_effect:
  assumes b: "blk (mem s) p (c, al)"
    and k: "8 dvd uint adj" "8 \<le> uint adj" "uint adj \<le> c"
  shows "chain (mem (put s p adj)) p
           (if 16 \<le> c - uint adj then [(uint adj, True), (c - uint adj, False)] else [(c, True)])
     \<and> (\<forall>a. a < p - 4 \<or> p + c - 4 \<le> a \<longrightarrow> mem (put s p adj) a = mem s a)
     \<and> (\<forall>a. p \<le> a \<and> a < p + uint adj - 8 \<longrightarrow> mem (put s p adj) a = mem s a)
     \<and> heapL (put s p adj) = heapL s \<and> trav (put s p adj) = trav s
     \<and> mem_brk (put s p adj) = mem_brk s \<and> mem_max_addr (put s p adj) = mem_max_addr s"
proof -
  let ?k = "uint adj"
  have adj: "adj = word_of_int ?k" by simp
  from b have r: "READ (mem s) (p - 4) = tag c al" and c: "8 dvd c" "8 \<le> c" "c < 2 ^ 32"
    by (simp_all add: blk_def)
  show ?thesis
  proof (cases "16 \<le> c - ?k")
    case True
    then have "?k + 16 \<le> c" by simp
    from put_split[OF r c(1,3) k(1,2) this]
    have p: "put s p adj = s\<lparr>mem := WRITE (WRITE (WRITE (WRITE (mem s) (p - 4) (tag ?k True))
        (p + ?k - 8) (tag ?k True)) (p + ?k - 4) (tag (c - ?k) False)) (p + c - 8) (tag (c - ?k) False)\<rparr>"
      by simp
    from True k c have d: "8 dvd c - ?k" "c - ?k < 2 ^ 32" "?k < 2 ^ 32" by auto
    show ?thesis
      unfolding p using True k c d
      by (simp add: blk_def READ_WRITE WRITE_outside add.assoc)
  next
    case False
    then have "c < ?k + 16" by simp
    from put_whole[OF r c _ k(3) this]
    have p: "put s p adj =
        s\<lparr>mem := WRITE (WRITE (mem s) (p - 4) (tag c True)) (p + c - 8) (tag c True)\<rparr>"
      by simp
    show ?thesis
      unfolding p using False k c
      by (simp add: blk_def READ_WRITE WRITE_outside)
  qed
qed

section \<open>Coalescing\<close>

lemma ucast_alloc: "(ucast (if a then 1 else 0 :: u32) :: size_t) \<noteq> 0 \<longleftrightarrow> a"
  by simp

lemma coalesce_reads:
  assumes own: "READ m (p - 4) = tag n a0" "8 dvd n" "8 \<le> n"
    and prev: "READ m (p - 8) = tag pn pa" "READ m (p - pn - 4) = tag pn pa'" "8 dvd pn" "8 \<le> pn"
    and nxt: "READ m (p + n - 4) = tag nn na" "8 dvd nn" "0 \<le> nn"
    and bound: "pn + n + nn < 2 ^ 32"
  shows "PREV m p = p - pn" and "FOOT m (p - pn) = p - 8" and "NEXT m p = p + n"
    and "GET_ALLOC m (p - 8) = (if pa then 1 else 0)"
    and "GET_ALLOC m (p + n - 4) = (if na then 1 else 0)"
    and "(ucast (GET_SIZE m (p - 4)) :: size_t) = word_of_int n"
    and "FOOT m p = p + n - 8"
    and "(ucast (GET_SIZE m (p - pn - 4)) :: size_t) = word_of_int pn"
    and "(ucast (GET_SIZE m (p + n - 4)) :: size_t) = word_of_int nn"
proof -
  from own prev nxt bound have b: "0 \<le> n" "n < 2 ^ 32" "0 \<le> pn" "pn < 2 ^ 32" "nn < 2 ^ 32"
    by auto
  show "PREV m p = p - pn"
    unfolding PREV_def using rd_tag(1)[OF prev(1,3) b(3,4)] by simp
  show "FOOT m (p - pn) = p - 8"
    unfolding FOOT_def HEAD_def using rd_tag(1)[OF prev(2,3) b(3,4)] by simp
  show "NEXT m p = p + n"
    unfolding NEXT_def using rd_tag(1)[OF own(1,2) b(1,2)] by simp
  show "GET_ALLOC m (p - 8) = (if pa then 1 else 0)"
    by (rule rd_tag(3)[OF prev(1,3) b(3,4)])
  show "GET_ALLOC m (p + n - 4) = (if na then 1 else 0)"
    by (rule rd_tag(3)[OF nxt(1,2,3) b(5)])
  show "(ucast (GET_SIZE m (p - 4)) :: size_t) = word_of_int n"
    by (rule rd_tag(2)[OF own(1,2) b(1,2)])
  show "FOOT m p = p + n - 8"
    unfolding FOOT_def HEAD_def using rd_tag(1)[OF own(1,2) b(1,2)] by simp
  show "(ucast (GET_SIZE m (p - pn - 4)) :: size_t) = word_of_int pn"
    by (rule rd_tag(2)[OF prev(2,3) b(3,4)])
  show "(ucast (GET_SIZE m (p + n - 4)) :: size_t) = word_of_int nn"
    by (rule rd_tag(2)[OF nxt(1,2,3) b(5)])
qed

definition retarget :: "state \<Rightarrow> addr \<Rightarrow> addr \<Rightarrow> state" where
  "retarget s lo hi = (if lo < trav s \<and> trav s < hi then s\<lparr>trav := lo\<rparr> else s)"

lemma coalesce_none:
  assumes own: "READ (mem s) (p - 4) = tag n a0" "8 dvd n" "8 \<le> n"
    and prev: "READ (mem s) (p - 8) = tag pn True" "READ (mem s) (p - pn - 4) = tag pn pa'" "8 dvd pn" "8 \<le> pn"
    and nxt: "READ (mem s) (p + n - 4) = tag nn True" "8 dvd nn" "0 \<le> nn"
    and bound: "pn + n + nn < 2 ^ 32"
  shows "coalesce s p = (s, p)"
  unfolding coalesce_def Let_def
  by (simp add: coalesce_reads[OF own prev nxt bound] HEAD_def)

lemma coalesce_prev:
  assumes own: "READ (mem s) (p - 4) = tag n a0" "8 dvd n" "8 \<le> n"
    and prev: "READ (mem s) (p - 8) = tag pn False" "READ (mem s) (p - pn - 4) = tag pn pa'" "8 dvd pn" "8 \<le> pn"
    and nxt: "READ (mem s) (p + n - 4) = tag nn True" "8 dvd nn" "0 \<le> nn"
    and bound: "pn + n + nn < 2 ^ 32"
  shows "coalesce s p =
    (retarget (s\<lparr>mem := WRITE (WRITE (mem s) (p + n - 8) (tag (pn + n) False))
                     (p - pn - 4) (tag (pn + n) False)\<rparr>) (p - pn) (p + n), p - pn)"
proof -
  let ?m = "mem s"
  let ?m1 = "WRITE ?m (p + n - 8) (tag (pn + n) False)"
  let ?m2 = "WRITE ?m1 (p - pn - 4) (tag (pn + n) False)"
  note rd = coalesce_reads[OF own prev nxt bound]
  from own prev nxt bound have b: "0 \<le> pn" "pn < 2 ^ 32" "0 \<le> pn + n" "pn + n < 2 ^ 32" "8 dvd pn + n"
    by auto
  have hs: "ucast (HF (word_of_int n + word_of_int pn :: size_t) 0) = tag (pn + n) False"
    using HF_tag_False[of "pn + n"] by (simp add: add.commute)
  have r1: "READ ?m1 (p - 8) = tag pn False"
    using own prev by (simp add: READ_WRITE)
  have p1: "PREV ?m1 p = p - pn"
    unfolding PREV_def using rd_tag(1)[OF r1 prev(3) b(1,2)] by simp
  have r2: "READ ?m2 (p - 8) = tag pn False"
    using own prev by (simp add: READ_WRITE)
  have p2: "PREV ?m2 p = p - pn"
    unfolding PREV_def using rd_tag(1)[OF r2 prev(3) b(1,2)] by simp
  have r3: "READ ?m2 (p - pn - 4) = tag (pn + n) False"
    by (simp add: READ_WRITE_same)
  have n2: "NEXT ?m2 (p - pn) = p + n"
    unfolding NEXT_def using rd_tag(1)[OF r3 b(5,3,4)] by simp
  show ?thesis
    unfolding coalesce_def Let_def
    by (simp add: rd hs p1 p2 n2 HEAD_def retarget_def)
qed


lemma coalesce_next:
  assumes own: "READ (mem s) (p - 4) = tag n a0" "8 dvd n" "8 \<le> n"
    and prev: "READ (mem s) (p - 8) = tag pn True" "READ (mem s) (p - pn - 4) = tag pn pa'" "8 dvd pn" "8 \<le> pn"
    and nxt: "READ (mem s) (p + n - 4) = tag nn False" "8 dvd nn" "0 \<le> nn"
    and bound: "pn + n + nn < 2 ^ 32"
  shows "coalesce s p =
    (retarget (s\<lparr>mem := WRITE (WRITE (mem s) (p - 4) (tag (n + nn) False))
                     (p + n + nn - 8) (tag (n + nn) False)\<rparr>) p (p + n + nn), p)"
proof -
  let ?m = "mem s"
  let ?m1 = "WRITE ?m (p - 4) (tag (n + nn) False)"
  let ?m2 = "WRITE ?m1 (p + n + nn - 8) (tag (n + nn) False)"
  note rd = coalesce_reads[OF own prev nxt bound]
  from own prev nxt bound have b: "0 \<le> n + nn" "n + nn < 2 ^ 32" "8 dvd n + nn"
    by auto
  have hs: "ucast (HF (word_of_int n + word_of_int nn :: size_t) 0) = tag (n + nn) False"
    using HF_tag_False[of "n + nn"] by simp
  have r1: "READ ?m1 (p - 4) = tag (n + nn) False"
    by (simp add: READ_WRITE_same)
  have f1: "FOOT ?m1 p = p + n + nn - 8"
    unfolding FOOT_def HEAD_def using rd_tag(1)[OF r1 b(3,1,2)] by simp
  have r2: "READ ?m2 (p - 4) = tag (n + nn) False"
    using own nxt by (simp add: READ_WRITE)
  have n2: "NEXT ?m2 p = p + n + nn"
    unfolding NEXT_def using rd_tag(1)[OF r2 b(3,1,2)] by simp
  show ?thesis
    unfolding coalesce_def Let_def
    by (simp add: rd hs f1 n2 HEAD_def retarget_def)
qed

lemma coalesce_both:
  assumes own: "READ (mem s) (p - 4) = tag n a0" "8 dvd n" "8 \<le> n"
    and prev: "READ (mem s) (p - 8) = tag pn False" "READ (mem s) (p - pn - 4) = tag pn pa'" "8 dvd pn" "8 \<le> pn"
    and nxt: "READ (mem s) (p + n - 4) = tag nn False" "8 dvd nn" "0 \<le> nn"
    and nfoot: "READ (mem s) (p + n + nn - 8) = tag nn na'"
    and bound: "pn + n + nn < 2 ^ 32"
  shows "coalesce s p =
    (retarget (s\<lparr>mem := WRITE (WRITE (mem s) (p - pn - 4) (tag (pn + n + nn) False))
                     (p + n + nn - 8) (tag (pn + n + nn) False)\<rparr>) (p - pn) (p + n + nn), p - pn)"
proof -
  let ?m = "mem s"
  let ?S = "pn + n + nn"
  let ?m1 = "WRITE ?m (p - pn - 4) (tag ?S False)"
  let ?m2 = "WRITE ?m1 (p + n + nn - 8) (tag ?S False)"
  note rd = coalesce_reads[OF own prev nxt bound]
  from own prev nxt bound have b: "0 \<le> ?S" "8 dvd ?S" "0 \<le> n" "n < 2 ^ 32"
    "0 \<le> pn" "pn < 2 ^ 32" "nn < 2 ^ 32" "0 \<le> pn + nn" "pn + nn < 2 ^ 32"
    by auto
  have fn: "FOOT ?m (p + n) = p + n + nn - 8"
    unfolding FOOT_def HEAD_def using rd_tag(1)[OF nxt(1,2,3) b(7)] by simp
  have g1: "GET_SIZE ?m (p - pn - 4) = word_of_int pn"
    unfolding GET_SIZE_def prev(2) by (rule tag_size[OF prev(3)])
  have g2: "GET_SIZE ?m (p + n + nn - 8) = word_of_int nn"
    unfolding GET_SIZE_def nfoot by (rule tag_size[OF nxt(2)])
  have uc: "(ucast (word_of_int pn + word_of_int nn :: u32) :: size_t) = word_of_int pn + word_of_int nn"
    using ucast_u32[OF b(8,9)] by simp
  have hs: "ucast (HF (word_of_int n + (word_of_int pn + word_of_int nn) :: size_t) 0) = tag ?S False"
    using HF_tag_False[of ?S] by (simp add: ac_simps)
  have r1: "READ ?m1 (p - 4) = tag n a0"
    using own prev by (simp add: READ_WRITE)
  have n1: "NEXT ?m1 p = p + n"
    unfolding NEXT_def using rd_tag(1)[OF r1 own(2) b(3,4)] by simp
  have r1': "READ ?m1 (p + n - 4) = tag nn False"
    using own prev nxt by (simp add: READ_WRITE)
  have f1: "FOOT ?m1 (p + n) = p + n + nn - 8"
    unfolding FOOT_def HEAD_def using rd_tag(1)[OF r1' nxt(2,3) b(7)] by simp
  have r2: "READ ?m2 (p - 8) = tag pn False"
    using own prev nxt by (simp add: READ_WRITE)
  have p2: "PREV ?m2 p = p - pn"
    unfolding PREV_def using rd_tag(1)[OF r2 prev(3) b(5,6)] by simp
  have r3: "READ ?m2 (p - pn - 4) = tag ?S False"
    using own prev nxt by (simp add: READ_WRITE)
  have n2: "NEXT ?m2 (p - pn) = p + n + nn"
    unfolding NEXT_def using rd_tag(1)[OF r3 b(2,1) bound] by simp
  show ?thesis
    unfolding coalesce_def Let_def
    by (simp add: rd fn g1 g2 uc hs n1 f1 p2 n2 HEAD_def retarget_def)
qed

section \<open>Coalescing on the block list\<close>

definition laid :: "memory \<Rightarrow> addr \<Rightarrow> block list \<Rightarrow> bool" where
  "laid m p bs \<longleftrightarrow> chain m p bs \<and> READ m (p + total bs - 4) = tag 0 True"

fun absorb_next :: "int \<Rightarrow> block list \<Rightarrow> block list" where
  "absorb_next n ((nn, False) # ys) = (n + nn, False) # ys"
| "absorb_next n ys = (n, False) # ys"

fun absorb :: "block \<Rightarrow> block list \<Rightarrow> block list" where
  "absorb (pn, False) ((n, a) # ys) = (pn + n, False) # ys"
| "absorb b ys = b # ys"

lemma layout_laid: "layout m h bs \<longleftrightarrow> laid m h ((8, True) # bs)"
  by (simp add: layout_def laid_def add.assoc)

lemma laid_replace:
  assumes l: "laid m p (xs @ old @ ys)"
    and t: "total new = total old"
    and n: "chain m' (p + total xs) new"
    and o: "\<And>a. a < p + total xs - 4 \<or> p + total xs + total old - 4 \<le> a \<Longrightarrow> m' a = m a"
  shows "laid m' p (xs @ new @ ys)"
proof -
  let ?q = "p + total xs"
  from l have cx: "chain m p xs"
    and co: "chain m ?q old" and cy: "chain m (?q + total old) ys"
    and e: "READ m (?q + total old + total ys - 4) = tag 0 True"
    by (simp_all add: laid_def chain_append add.assoc)
  have x0: "0 \<le> total xs" and o0: "0 \<le> total old" and y0: "0 \<le> total ys"
    using cx co cy by (auto dest: chain_total_nonneg)
  have "chain m' p xs"
    using cx by (rule chain_cong[rotated]) (auto intro: o)
  moreover have "chain m' (?q + total new) ys"
    unfolding t using cy by (rule chain_cong[rotated]) (use o0 in \<open>auto intro: o\<close>)
  moreover have "READ m' (?q + total old + total ys - 4) = READ m (?q + total old + total ys - 4)"
    using y0 by (intro READ_cong o) auto
  ultimately show ?thesis
    using n e t by (simp add: laid_def chain_append add.assoc)
qed

lemma laid_next_tag:
  assumes "laid m p (xs @ ys)"
  shows "\<exists>nn na. READ m (p + total xs - 4) = tag nn na \<and> 8 dvd nn \<and> 0 \<le> nn
    \<and> (ys = [] \<longrightarrow> nn = 0 \<and> na) \<and> (\<forall>b ys'. ys = b # ys' \<longrightarrow> nn = fst b \<and> na = snd b)"
proof (cases ys)
  case Nil
  with assms show ?thesis
    by (intro exI[of _ 0] exI[of _ True]) (simp add: laid_def)
next
  case (Cons b ys')
  with assms have "blk m (p + total xs) b"
    by (simp add: laid_def chain_append)
  with Cons show ?thesis
    by (intro exI[of _ "fst b"] exI[of _ "snd b"]) (simp add: blk_def)
qed


fun next_free_size :: "block list \<Rightarrow> int" where
  "next_free_size ((nn, False) # ys) = nn"
| "next_free_size ys = 0"

lemma chain_sizes: "chain m p bs \<Longrightarrow> b \<in> set bs \<Longrightarrow> 8 \<le> fst b"
  by (induction bs arbitrary: p) (auto simp: blk_def)

lemma starts_bounds:
  "(\<And>b. b \<in> set bs \<Longrightarrow> 0 < fst b) \<Longrightarrow> x \<in> set (starts p bs) \<Longrightarrow> p \<le> x \<and> x < p + total bs"
proof (induction bs arbitrary: p)
  case Nil
  then show ?case by simp
next
  case (Cons b bs)
  have pos: "0 < fst b" by (rule Cons.prems(1)) simp
  have tot: "0 \<le> total bs"
    unfolding total_def by (rule sum_list_nonneg) (use Cons.prems(1) in force)
  show ?case
  proof (cases "x = p")
    case True
    with pos tot show ?thesis by simp
  next
    case False
    with Cons.prems(2) have "x \<in> set (starts (p + fst b) bs)" by simp
    then have "p + fst b \<le> x \<and> x < p + fst b + total bs"
      by (rule Cons.IH[rotated]) (simp add: Cons.prems(1))
    with pos show ?thesis by simp
  qed
qed

lemma retarget_starts:
  assumes t: "trav s \<in> set (starts h (xs @ old @ ys))"
    and ne: "old \<noteq> []"
    and pos: "\<And>b. b \<in> set (xs @ old @ ys) \<Longrightarrow> 0 < fst b"
  shows "trav (retarget s (h + total xs) (h + total xs + total old))
           \<in> set (starts h (xs @ (total old, a) # ys))"
proof -
  let ?q = "h + total xs" and ?t = "trav s"
  from t consider (x) "?t \<in> set (starts h xs)" | (o) "?t \<in> set (starts ?q old)"
    | (y) "?t \<in> set (starts (?q + total old) ys)"
    by (auto simp: starts_append)
  then show ?thesis
  proof cases
    case x
    then have "?t < ?q"
      using starts_bounds[of xs ?t h] pos by auto
    with x show ?thesis
      by (simp add: retarget_def starts_append)
  next
    case o
    then have "?q \<le> ?t \<and> ?t < ?q + total old"
      using starts_bounds[of old ?t ?q] pos by auto
    then show ?thesis
      by (auto simp: retarget_def starts_append)
  next
    case y
    then have "?q + total old \<le> ?t"
      using starts_bounds[of ys ?t "?q + total old"] pos by auto
    with y show ?thesis
      by (simp add: retarget_def starts_append)
  qed
qed


lemma retarget_fields [simp]:
  "mem (retarget s lo hi) = mem s" "heapL (retarget s lo hi) = heapL s"
  "mem_brk (retarget s lo hi) = mem_brk s" "mem_max_addr (retarget s lo hi) = mem_max_addr s"
  by (simp_all add: retarget_def)

lemma coalesce_laid:
  assumes l: "laid (mem s) h (xs @ (pn, pa) # (n, False) # ys)"
    and p: "p = h + total xs + pn"
    and bound: "total (xs @ (pn, pa) # (n, False) # ys) < 2 ^ 32"
    and t: "trav s \<in> set (starts h (xs @ (pn, pa) # (n, False) # ys))"
  shows "\<exists>s'. coalesce s p = (s', if pa then p else p - pn)
      \<and> laid (mem s') h (xs @ absorb (pn, pa) (absorb_next n ys))
      \<and> trav s' \<in> set (starts h (xs @ absorb (pn, pa) (absorb_next n ys)))
      \<and> heapL s' = heapL s \<and> mem_brk s' = mem_brk s \<and> mem_max_addr s' = mem_max_addr s
      \<and> (\<forall>a. a < (if pa then p else p - pn) - 4 \<or> p + n + next_free_size ys - 4 \<le> a
            \<longrightarrow> mem s' a = mem s a)"
proof -
  let ?m = "mem s" and ?q = "h + total xs"
  let ?F = "xs @ (pn, pa) # (n, False) # ys"
  from l have cx: "chain ?m h xs" and bp: "blk ?m ?q (pn, pa)" and bo: "blk ?m p (n, False)"
    and cy: "chain ?m (p + n) ys" and cF: "chain ?m h ?F"
    by (simp_all add: laid_def chain_append p add.assoc)
  have x0: "0 \<le> total xs" and y0: "0 \<le> total ys"
    using cx cy by (auto dest: chain_total_nonneg)
  have pos: "\<And>b. b \<in> set ?F \<Longrightarrow> 0 < fst b"
  proof -
    fix b assume "b \<in> set ?F"
    from chain_sizes[OF cF this] show "0 < fst b" by simp
  qed
  from bo have own: "READ ?m (p - 4) = tag n False" "8 dvd n" "8 \<le> n"
    by (simp_all add: blk_def)
  from bp have prev: "READ ?m (p - 8) = tag pn pa" "READ ?m (p - pn - 4) = tag pn pa"
    "8 dvd pn" "8 \<le> pn"
    by (simp_all add: blk_def p add.assoc)
  have tF: "total ?F = total xs + pn + n + total ys" by simp
  have nexta: "\<exists>s'. coalesce s p = (s', if pa then p else p - pn)
      \<and> laid (mem s') h (xs @ absorb (pn, pa) ((n, False) # ys))
      \<and> trav s' \<in> set (starts h (xs @ absorb (pn, pa) ((n, False) # ys)))
      \<and> heapL s' = heapL s \<and> mem_brk s' = mem_brk s \<and> mem_max_addr s' = mem_max_addr s
      \<and> (\<forall>a. a < (if pa then p else p - pn) - 4 \<or> p + n - 4 \<le> a \<longrightarrow> mem s' a = mem s a)"
    if nxt: "READ ?m (p + n - 4) = tag nn True" "8 dvd nn" "0 \<le> nn" "nn \<le> total ys" for nn
  proof -
    have bd: "pn + n + nn < 2 ^ 32" using bound x0 nxt(4) by simp
    show ?thesis
    proof (cases pa)
      case True
      with prev have prevT: "READ ?m (p - 8) = tag pn True" by simp
      have "coalesce s p = (s, p)"
        by (rule coalesce_none[OF own prevT prev(2,3,4) nxt(1,2,3) bd])
      then show ?thesis
        using l t True by simp
    next
      case False
      with prev have prevF: "READ ?m (p - 8) = tag pn False" by simp
      let ?W = "WRITE (WRITE ?m (p + n - 8) (tag (pn + n) False)) (p - pn - 4) (tag (pn + n) False)"
      let ?s1 = "s\<lparr>mem := ?W\<rparr>"
      have c: "coalesce s p = (retarget ?s1 (p - pn) (p + n), p - pn)"
        by (rule coalesce_prev[OF own prevF prev(2,3,4) nxt(1,2,3) bd])
      have "laid ?W h (xs @ [(pn + n, False)] @ ys)"
      proof (rule laid_replace[where old = "[(pn, False), (n, False)]"])
        show "laid ?m h (xs @ [(pn, False), (n, False)] @ ys)"
          using l False by simp
        show "total [(pn + n, False)] = total [(pn, False), (n, False)]"
          by simp
        show "chain ?W (h + total xs) [(pn + n, False)]"
          using own prev bd nxt(3) by (simp add: blk_def p READ_WRITE)
        show "?W a = ?m a" if "a < h + total xs - 4 \<or>
            h + total xs + total [(pn, False), (n, False)] - 4 \<le> a" for a
          using that own prev by (auto simp: WRITE_outside p)
      qed
      moreover have "trav (retarget ?s1 (h + total xs) (h + total xs + total [(pn, False), (n, False)]))
           \<in> set (starts h (xs @ (total [(pn, False), (n, False)], False) # ys))"
      proof (rule retarget_starts)
        show "trav ?s1 \<in> set (starts h (xs @ [(pn, False), (n, False)] @ ys))"
          using t False by simp
        show "0 < fst b" if "b \<in> set (xs @ [(pn, False), (n, False)] @ ys)" for b
          using pos[of b] that False by simp
      qed simp
      moreover have "?W a = ?m a" if "a < p - pn - 4 \<or> p + n - 4 \<le> a" for a
        using that own prev by (auto simp: WRITE_outside)
      ultimately show ?thesis
        using c False by (simp add: p algebra_simps)
    qed
  qed
  consider (e) "ys = []" | (a) nn ys' where "ys = (nn, True) # ys'"
    | (f) nn ys' where "ys = (nn, False) # ys'"
    by (cases ys) auto
  then show ?thesis
  proof cases
    case e
    from l have "READ ?m (p + n - 4) = tag 0 True"
      by (simp add: laid_def e p add.assoc)
    from nexta[OF this] show ?thesis
      by (simp add: e)
  next
    case a
    from cy have bn: "blk ?m (p + n) (nn, True)" and y': "0 \<le> total ys'"
      by (auto simp: a dest: chain_total_nonneg)
    then have "READ ?m (p + n - 4) = tag nn True" "8 dvd nn" "0 \<le> nn" "nn \<le> total ys"
      by (simp_all add: blk_def a)
    from nexta[OF this] show ?thesis
      by (simp add: a)
  next
    case f
    from cy have bn: "blk ?m (p + n) (nn, False)" and y': "0 \<le> total ys'"
      by (auto simp: f dest: chain_total_nonneg)
    then have nxt: "READ ?m (p + n - 4) = tag nn False" "8 dvd nn" "0 \<le> nn"
      and nn8: "8 \<le> nn" and nfoot: "READ ?m (p + n + nn - 8) = tag nn False"
      by (simp_all add: blk_def)
    have bd: "pn + n + nn < 2 ^ 32" using bound x0 y' by (simp add: f)
    show ?thesis
    proof (cases pa)
      case True
      with prev have prevT: "READ ?m (p - 8) = tag pn True" by simp
      let ?W = "WRITE (WRITE ?m (p - 4) (tag (n + nn) False)) (p + n + nn - 8) (tag (n + nn) False)"
      let ?s1 = "s\<lparr>mem := ?W\<rparr>"
      have c: "coalesce s p = (retarget ?s1 p (p + n + nn), p)"
        by (rule coalesce_next[OF own prevT prev(2,3,4) nxt bd])
      have "laid ?W h ((xs @ [(pn, True)]) @ [(n + nn, False)] @ ys')"
      proof (rule laid_replace[where old = "[(n, False), (nn, False)]"])
        show "laid ?m h ((xs @ [(pn, True)]) @ [(n, False), (nn, False)] @ ys')"
          using l True f by simp
        show "total [(n + nn, False)] = total [(n, False), (nn, False)]"
          by simp
        show "chain ?W (h + total (xs @ [(pn, True)])) [(n + nn, False)]"
          using own nn8 nxt bd prev(4) by (simp add: blk_def p READ_WRITE add.assoc)
        show "?W a = ?m a" if "a < h + total (xs @ [(pn, True)]) - 4 \<or>
            h + total (xs @ [(pn, True)]) + total [(n, False), (nn, False)] - 4 \<le> a" for a
          using that own nn8 by (auto simp: WRITE_outside p)
      qed
      moreover have "trav (retarget ?s1 (h + total (xs @ [(pn, True)]))
            (h + total (xs @ [(pn, True)]) + total [(n, False), (nn, False)]))
           \<in> set (starts h ((xs @ [(pn, True)]) @ (total [(n, False), (nn, False)], False) # ys'))"
      proof (rule retarget_starts)
        show "trav ?s1 \<in> set (starts h ((xs @ [(pn, True)]) @ [(n, False), (nn, False)] @ ys'))"
          using t True f by simp
        show "0 < fst b" if "b \<in> set ((xs @ [(pn, True)]) @ [(n, False), (nn, False)] @ ys')" for b
          using pos[of b] that True f by simp
      qed simp
      moreover have "?W a = ?m a" if "a < p - 4 \<or> p + n + nn - 4 \<le> a" for a
        using that own nn8 by (auto simp: WRITE_outside)
      ultimately show ?thesis
        using c True by (simp add: p f algebra_simps)
    next
      case False
      with prev have prevF: "READ ?m (p - 8) = tag pn False" by simp
      let ?S = "pn + n + nn"
      let ?W = "WRITE (WRITE ?m (p - pn - 4) (tag ?S False)) (p + n + nn - 8) (tag ?S False)"
      let ?s1 = "s\<lparr>mem := ?W\<rparr>"
      have c: "coalesce s p = (retarget ?s1 (p - pn) (p + n + nn), p - pn)"
        by (rule coalesce_both[OF own prevF prev(2,3,4) nxt nfoot bd])
      have "laid ?W h (xs @ [(?S, False)] @ ys')"
      proof (rule laid_replace[where old = "[(pn, False), (n, False), (nn, False)]"])
        show "laid ?m h (xs @ [(pn, False), (n, False), (nn, False)] @ ys')"
          using l False f by simp
        show "total [(?S, False)] = total [(pn, False), (n, False), (nn, False)]"
          by simp
        show "chain ?W (h + total xs) [(?S, False)]"
          using own nn8 nxt bd prev by (simp add: blk_def p READ_WRITE add.assoc)
        show "?W a = ?m a" if "a < h + total xs - 4 \<or>
            h + total xs + total [(pn, False), (n, False), (nn, False)] - 4 \<le> a" for a
          using that own nn8 prev by (auto simp: WRITE_outside p)
      qed
      moreover have "trav (retarget ?s1 (h + total xs)
            (h + total xs + total [(pn, False), (n, False), (nn, False)]))
           \<in> set (starts h (xs @ (total [(pn, False), (n, False), (nn, False)], False) # ys'))"
      proof (rule retarget_starts)
        show "trav ?s1 \<in> set (starts h (xs @ [(pn, False), (n, False), (nn, False)] @ ys'))"
          using t False f by simp
        show "0 < fst b" if "b \<in> set (xs @ [(pn, False), (n, False), (nn, False)] @ ys')" for b
          using pos[of b] that False f by simp
      qed simp
      moreover have "?W a = ?m a" if "a < p - pn - 4 \<or> p + n + nn - 4 \<le> a" for a
        using that own nn8 prev by (auto simp: WRITE_outside)
      ultimately show ?thesis
        using c False by (simp add: p f algebra_simps)
    qed
  qed
qed

section \<open>Freeing and growing on the block list\<close>

lemma mm_free_laid:
  assumes l: "laid (mem s) h (xs @ (pn, pa) # (n, True) # ys)"
    and p: "p = h + total xs + pn"
    and nz: "heapL s \<noteq> 0" "p \<noteq> 0"
    and bound: "total (xs @ (pn, pa) # (n, True) # ys) < 2 ^ 32"
    and t: "trav s \<in> set (starts h (xs @ (pn, pa) # (n, True) # ys))"
  shows "laid (mem (mm_free s p)) h (xs @ absorb (pn, pa) (absorb_next n ys))
      \<and> trav (mm_free s p) \<in> set (starts h (xs @ absorb (pn, pa) (absorb_next n ys)))
      \<and> heapL (mm_free s p) = heapL s \<and> mem_brk (mm_free s p) = mem_brk s
      \<and> mem_max_addr (mm_free s p) = mem_max_addr s
      \<and> (\<forall>a. a < (if pa then p else p - pn) - 4 \<or> p + n + next_free_size ys - 4 \<le> a
            \<longrightarrow> mem (mm_free s p) a = mem s a)"
proof -
  let ?m = "mem s"
  let ?W = "WRITE (WRITE ?m (p - 4) (tag n False)) (p + n - 8) (tag n False)"
  let ?s1 = "s\<lparr>mem := ?W\<rparr>"
  from l have bo: "blk ?m p (n, True)"
    by (simp add: laid_def chain_append p add.assoc)
  then have own: "READ ?m (p - 4) = tag n True" "8 dvd n" "8 \<le> n" "n < 2 ^ 32"
    by (simp_all add: blk_def)
  have cs: "(ucast (GET_SIZE ?m (p - 4)) :: size_t) = word_of_int n"
    using own by (intro rd_tag(2)) auto
  have f1: "FOOT (WRITE ?m (p - 4) (tag n False)) p = p + n - 8"
    unfolding FOOT_def HEAD_def
    using own by (subst rd_tag(1)[where n = n and al = False]) (simp_all add: READ_WRITE_same)
  have fr: "mm_free s p = fst (coalesce ?s1 p)"
    unfolding mm_free_def Let_def using nz by (simp add: cs HF_tag_False f1 HEAD_def)
  have l1: "laid ?W h ((xs @ [(pn, pa)]) @ [(n, False)] @ ys)"
  proof (rule laid_replace[where old = "[(n, True)]"])
    show "laid ?m h ((xs @ [(pn, pa)]) @ [(n, True)] @ ys)"
      using l by simp
    show "chain ?W (h + total (xs @ [(pn, pa)])) [(n, False)]"
      using own by (simp add: blk_def p READ_WRITE add.assoc)
    show "?W a = ?m a" if "a < h + total (xs @ [(pn, pa)]) - 4 \<or>
        h + total (xs @ [(pn, pa)]) + total [(n, True)] - 4 \<le> a" for a
      using that own by (auto simp: WRITE_outside p)
  qed simp
  have w: "?W a = ?m a" if "a < p - 4 \<or> p + n - 4 \<le> a" for a
    using that own by (auto simp: WRITE_outside)
  from l have "8 \<le> pn"
    by (simp add: laid_def chain_append blk_def)
  moreover have "0 \<le> next_free_size ys"
    using l by (cases ys rule: next_free_size.cases) (simp_all add: laid_def chain_append blk_def)
  ultimately have w': "?W a = ?m a"
    if "a < (if pa then p else p - pn) - 4 \<or> p + n + next_free_size ys - 4 \<le> a" for a
    using that by (intro w) (auto split: if_splits)
  from coalesce_laid[of ?s1 h xs pn pa n ys p] l1 p bound t
  obtain s' where c: "coalesce ?s1 p = (s', if pa then p else p - pn)"
    and r: "laid (mem s') h (xs @ absorb (pn, pa) (absorb_next n ys))"
      "trav s' \<in> set (starts h (xs @ absorb (pn, pa) (absorb_next n ys)))"
      "heapL s' = heapL s" "mem_brk s' = mem_brk s" "mem_max_addr s' = mem_max_addr s"
    and fr': "\<And>a. a < (if pa then p else p - pn) - 4 \<or> p + n + next_free_size ys - 4 \<le> a
            \<Longrightarrow> mem s' a = ?W a"
    by (auto simp: starts_append)
  show ?thesis
    unfolding fr c using r fr' w' by simp
qed


lemma grow_round:
  fixes w :: size_t
  assumes "8 dvd uint w"
  shows "(if (w div 4) mod 2 \<noteq> 0 then (w div 4 + 1) * 4 else (w div 4) * 4) = w"
proof -
  from assms obtain j where j: "uint w = 8 * j" by (auto simp: dvd_def)
  have d: "uint (w div 4) = 2 * j"
    by (simp add: uint_div j)
  have "uint ((w div 4) mod 2) = 0"
    by (simp add: uint_mod d)
  then have m: "(w div 4) mod 2 = 0"
    by (simp add: word_uint_eq_iff)
  have "uint ((w div 4) * 4) = uint w"
    using uint_lt2p[of w] uint_ge_0[of w]
    by (simp add: uint_word_ariths d j take_bit_int_eq_self)
  then have "(w div 4) * 4 = w"
    by (simp add: word_uint_eq_iff)
  with m show ?thesis by simp
qed


lemma grow_heap_fail:
  assumes "8 dvd uint g" and "mem_max_addr s < mem_brk s + uint g"
  shows "grow_heap s (g div 4) = (s, NULL)"
  unfolding grow_heap_def Let_def grow_round[OF assms(1)]
  using assms(2) by (simp add: mem_sbrk_def)

lemma grow_heap_laid:
  assumes l: "laid (mem s) h (xs @ [(pn, pa)])"
    and e: "mem_brk s = h + total xs + pn"
    and g: "8 dvd uint g" "8 \<le> uint g"
    and ok: "mem_brk s + uint g \<le> mem_max_addr s"
    and bound: "mem_max_addr s - h < 2 ^ 32"
    and h: "0 < h"
    and t: "trav s \<in> set (starts h (xs @ [(pn, pa)]))"
  shows "\<exists>s'. grow_heap s (g div 4) = (s', if pa then mem_brk s else mem_brk s - pn)
      \<and> laid (mem s') h (xs @ absorb (pn, pa) [(uint g, False)])
      \<and> trav s' \<in> set (starts h (xs @ absorb (pn, pa) [(uint g, False)]))
      \<and> heapL s' = heapL s \<and> mem_brk s' = mem_brk s + uint g
      \<and> mem_max_addr s' = mem_max_addr s
      \<and> (\<forall>a. a < (if pa then mem_brk s else mem_brk s - pn) - 4 \<longrightarrow> mem s' a = mem s a)"
proof -
  let ?m = "mem s" and ?e = "mem_brk s" and ?g = "uint g"
  let ?m1 = "WRITE ?m (?e - 4) (tag ?g False)"
  let ?m2 = "WRITE ?m1 (?e + ?g - 8) (tag ?g False)"
  let ?m3 = "WRITE ?m2 (?e + ?g - 4) (tag 0 True)"
  let ?s1 = "s\<lparr>mem_brk := ?e + ?g, mem := ?m3\<rparr>"
  from l have cF: "chain ?m h (xs @ [(pn, pa)])" and cx: "chain ?m h xs"
    by (simp_all add: laid_def chain_append)
  have x0: "0 \<le> total xs" using cx by (rule chain_total_nonneg)
  from l have pn: "8 \<le> pn" by (simp add: laid_def chain_append blk_def)
  have epos: "0 < ?e" using e h x0 pn by simp
  have g32: "?g < 2 ^ 32" using ok bound e x0 pn by simp
  have gw: "g = word_of_int ?g" by simp
  have hs: "ucast (HF g 0) = tag ?g False"
    using HF_tag_False[of ?g] by simp
  have he: "(ucast (HF 0 1 :: size_t) :: u32) = tag 0 True"
    using HF_tag_True[of 0] by simp
  have f1: "FOOT ?m1 ?e = ?e + ?g - 8"
    unfolding FOOT_def HEAD_def
    using g g32 by (subst rd_tag(1)[where n = ?g and al = False]) (simp_all add: READ_WRITE_same)
  have r2: "READ ?m2 (?e - 4) = tag ?g False"
    using g by (simp add: READ_WRITE)
  have n2: "NEXT ?m2 ?e = ?e + ?g"
    unfolding NEXT_def using rd_tag(1)[OF r2 g(1) _ g32] by simp
  have gr: "grow_heap s (g div 4) = coalesce ?s1 ?e"
    unfolding grow_heap_def Let_def grow_round[OF g(1)]
    using ok epos by (simp add: mem_sbrk_def hs he f1 n2 HEAD_def)
  have w: "?m3 a = ?m a" if "a < ?e - 4" for a
    using that g by (simp add: WRITE_outside)
  have l1: "laid ?m3 h (xs @ (pn, pa) # (?g, False) # [])"
  proof -
    have "chain ?m3 h (xs @ [(pn, pa)])"
      using cF by (rule chain_cong[rotated]) (rule w, simp add: e)
    moreover have "blk ?m3 ?e (?g, False)"
      using g g32 by (simp add: blk_def READ_WRITE)
    moreover have "READ ?m3 (?e + ?g - 4) = tag 0 True"
      by (simp add: READ_WRITE_same)
    ultimately show ?thesis
      by (simp add: laid_def chain_append e add.assoc)
  qed
  have t1: "trav ?s1 \<in> set (starts h (xs @ (pn, pa) # (?g, False) # []))"
    using t by (auto simp: starts_append)
  have b1: "total (xs @ (pn, pa) # (?g, False) # []) < 2 ^ 32"
    using ok bound e by simp
  from coalesce_laid[of ?s1 h xs pn pa ?g "[]" ?e] l1 e b1 t1
  obtain s' where c: "coalesce ?s1 ?e = (s', if pa then ?e else ?e - pn)"
    and r: "laid (mem s') h (xs @ absorb (pn, pa) [(?g, False)])"
      "trav s' \<in> set (starts h (xs @ absorb (pn, pa) [(?g, False)]))"
      "heapL s' = heapL s" "mem_brk s' = ?e + ?g" "mem_max_addr s' = mem_max_addr s"
    and fr': "\<And>a. a < (if pa then ?e else ?e - pn) - 4 \<or> ?e + ?g - 4 \<le> a
            \<Longrightarrow> mem s' a = ?m3 a"
    by auto
  have "mem s' a = ?m a" if "a < (if pa then ?e else ?e - pn) - 4" for a
    using fr'[of a] w[of a] that pn by (auto split: if_splits)
  with r c gr show ?thesis by simp
qed

section \<open>The heap invariant\<close>

definition good :: "block list \<Rightarrow> bool" where
  "good F \<longleftrightarrow>
     F \<noteq> [] \<and> hd F = (8, True) \<and> no_adj_free F \<and> list_all (\<lambda>b. 16 \<le> fst b) (tl F)"

definition heap_inv :: "state \<Rightarrow> block list \<Rightarrow> bool" where
  "heap_inv s F \<longleftrightarrow>
     0 < heapL s \<and> laid (mem s) (heapL s) F \<and> mem_brk s = heapL s + total F \<and>
     trav s \<in> set (starts (heapL s) F) \<and> good F \<and>
     mem_brk s \<le> mem_max_addr s \<and> mem_max_addr s - heapL s < 2 ^ 32"

fun allocd :: "addr \<Rightarrow> block list \<Rightarrow> addr list" where
  "allocd p [] = []"
| "allocd p (b # bs) = (if snd b then p # allocd (p + fst b) bs else allocd (p + fst b) bs)"

lemma no_adj_free_Cons:
  "no_adj_free (b # bs) \<longleftrightarrow> no_adj_free bs \<and> (bs = [] \<or> snd b \<or> snd (hd bs))"
  by (cases bs) auto

lemma no_adj_free_append:
  "no_adj_free (xs @ ys) \<longleftrightarrow>
     no_adj_free xs \<and> no_adj_free ys \<and> (xs = [] \<or> ys = [] \<or> snd (last xs) \<or> snd (hd ys))"
proof (induction xs)
  case Nil
  then show ?case by simp
next
  case (Cons b xs)
  show ?case
  proof (cases xs)
    case Nil
    then show ?thesis
      by (cases ys) (auto simp: no_adj_free_Cons)
  next
    case (Cons c zs)
    with Cons.IH show ?thesis
      by (auto simp: no_adj_free_Cons)
  qed
qed

lemma good_put_split:
  "good (xs @ (c, False) # ys) \<Longrightarrow> xs \<noteq> [] \<Longrightarrow> 16 \<le> k \<Longrightarrow> 16 \<le> c - k \<Longrightarrow>
   good (xs @ (k, True) # (c - k, False) # ys)"
  by (cases xs) (auto simp: good_def no_adj_free_append no_adj_free_Cons)

lemma good_put_whole:
  "good (xs @ (c, False) # ys) \<Longrightarrow> xs \<noteq> [] \<Longrightarrow> good (xs @ (c, True) # ys)"
  by (cases xs) (auto simp: good_def no_adj_free_append no_adj_free_Cons)

lemma good_free:
  assumes "good (xs @ (pn, pa) # (n, True) # ys)"
  shows "good (xs @ absorb (pn, pa) (absorb_next n ys))"
proof (cases xs)
  case Nil
  with assms show ?thesis
    by (cases ys rule: next_free_size.cases)
      (auto simp: good_def no_adj_free_Cons)
next
  case (Cons x xs')
  with assms show ?thesis
    by (cases ys rule: next_free_size.cases; cases pa)
      (auto simp: good_def no_adj_free_append no_adj_free_Cons)
qed

lemma good_grow:
  assumes "good (xs @ [(pn, pa)])" and "16 \<le> g"
  shows "good (xs @ absorb (pn, pa) [(g, False)])"
proof (cases xs)
  case Nil
  with assms show ?thesis
    by (auto simp: good_def)
next
  case (Cons x xs')
  with assms show ?thesis
    by (cases pa) (auto simp: good_def no_adj_free_append no_adj_free_Cons)
qed


lemma allocd_append: "allocd p (xs @ ys) = allocd p xs @ allocd (p + total xs) ys"
  by (induction xs arbitrary: p) (auto simp: add.assoc)

lemma allocd_split:
  "x \<in> set (allocd p bs) \<Longrightarrow> \<exists>xs n ys. bs = xs @ (n, True) # ys \<and> x = p + total xs"
proof (induction bs arbitrary: p)
  case Nil
  then show ?case by simp
next
  case (Cons b bs)
  show ?case
  proof (cases "snd b \<and> x = p")
    case True
    then have "b # bs = [] @ (fst b, True) # bs \<and> x = p + total []"
      by (cases b) simp
    then show ?thesis by blast
  next
    case False
    with Cons.prems have "x \<in> set (allocd (p + fst b) bs)"
      by (auto split: if_splits)
    from Cons.IH[OF this] obtain xs n ys where "bs = xs @ (n, True) # ys" "x = p + fst b + total xs"
      by blast
    then have "b # bs = (b # xs) @ (n, True) # ys \<and> x = p + total (b # xs)"
      by simp
    then show ?thesis by blast
  qed
qed

lemma starts_split:
  "x \<in> set (starts p bs) \<Longrightarrow> \<exists>xs ys. bs = xs @ ys \<and> ys \<noteq> [] \<and> x = p + total xs"
proof (induction bs arbitrary: p)
  case Nil
  then show ?case by simp
next
  case (Cons b bs)
  show ?case
  proof (cases "x = p")
    case True
    then have "b # bs = [] @ (b # bs) \<and> b # bs \<noteq> [] \<and> x = p + total []"
      by simp
    then show ?thesis by blast
  next
    case False
    with Cons.prems have "x \<in> set (starts (p + fst b) bs)"
      by simp
    from Cons.IH[OF this] obtain xs ys where "bs = xs @ ys" "ys \<noteq> []" "x = p + fst b + total xs"
      by blast
    then have "b # bs = (b # xs) @ ys \<and> ys \<noteq> [] \<and> x = p + total (b # xs)"
      by simp
    then show ?thesis by blast
  qed
qed

lemma first_fit_Some:
  "first_fit p bs k = Some q \<Longrightarrow> \<exists>xs c ys. bs = xs @ (c, False) # ys \<and> q = p + total xs \<and> k \<le> c"
proof (induction bs arbitrary: p)
  case Nil
  then show ?case by simp
next
  case (Cons b bs)
  show ?case
  proof (cases "\<not> snd b \<and> k \<le> fst b")
    case True
    with Cons.prems have "b # bs = [] @ (fst b, False) # bs \<and> q = p + total [] \<and> k \<le> fst b"
      by (cases b) simp
    then show ?thesis by blast
  next
    case False
    with Cons.prems have "first_fit (p + fst b) bs k = Some q"
      by auto
    from Cons.IH[OF this] obtain xs c ys
      where "bs = xs @ (c, False) # ys" "q = p + fst b + total xs" "k \<le> c"
      by blast
    then have "b # bs = (b # xs) @ (c, False) # ys \<and> q = p + total (b # xs) \<and> k \<le> c"
      by simp
    then show ?thesis by blast
  qed
qed

lemma next_fit_Some:
  assumes "next_fit p before after k = Some q"
  shows "\<exists>xs c ys. before @ after = xs @ (c, False) # ys \<and> q = p + total xs \<and> k \<le> c"
proof (cases "first_fit (p + total before) after k")
  case None
  with assms have "first_fit p before k = Some q"
    by (simp add: next_fit_def)
  from first_fit_Some[OF this] obtain xs c ys
    where "before = xs @ (c, False) # ys" "q = p + total xs" "k \<le> c"
    by blast
  then have "before @ after = xs @ (c, False) # (ys @ after) \<and> q = p + total xs \<and> k \<le> c"
    by simp
  then show ?thesis by blast
next
  case (Some r)
  with assms have "first_fit (p + total before) after k = Some q"
    by (simp add: next_fit_def)
  from first_fit_Some[OF this] obtain xs c ys
    where "after = xs @ (c, False) # ys" "q = p + total before + total xs" "k \<le> c"
    by blast
  then have "before @ after = (before @ xs) @ (c, False) # ys \<and> q = p + total (before @ xs) \<and> k \<le> c"
    by simp
  then show ?thesis by blast
qed


lemma heap_inv_blocks:
  assumes "heap_inv s F"
  shows "\<exists>bs. F = (8, True) # bs \<and> layout (mem s) (heapL s) bs"
proof -
  from assms have "F \<noteq> []" "hd F = (8, True)" "laid (mem s) (heapL s) F"
    by (simp_all add: heap_inv_def good_def)
  then show ?thesis
    by (cases F) (auto simp: layout_laid)
qed

lemma put_inv:
  assumes inv: "heap_inv s (xs @ (c, False) # ys)"
    and xs: "xs \<noteq> []"
    and q: "q = heapL s + total xs"
    and k: "8 dvd uint adj" "16 \<le> uint adj" "uint adj \<le> c"
  shows "\<exists>c' ys'. heap_inv (put s q adj) (xs @ (c', True) # ys') \<and> uint adj \<le> c'
      \<and> total (xs @ (c', True) # ys') = total (xs @ (c, False) # ys)
      \<and> set (allocd (heapL s) (xs @ (c', True) # ys'))
          = insert q (set (allocd (heapL s) (xs @ (c, False) # ys)))
      \<and> heapL (put s q adj) = heapL s \<and> mem_brk (put s q adj) = mem_brk s
      \<and> mem_max_addr (put s q adj) = mem_max_addr s"
proof -
  let ?h = "heapL s" and ?k = "uint adj" and ?s = "put s q adj"
  let ?new = "if 16 \<le> c - ?k then [(?k, True), (c - ?k, False)] else [(c, True)]"
  from inv have l: "laid (mem s) ?h (xs @ [(c, False)] @ ys)"
    and g: "good (xs @ (c, False) # ys)"
    and t: "trav s \<in> set (starts ?h (xs @ (c, False) # ys))"
    by (simp_all add: heap_inv_def)
  from l have b: "blk (mem s) q (c, False)"
    by (simp add: laid_def chain_append q)
  from k have k8: "8 \<le> ?k" by simp
  note pp = put_effect[OF b k(1) k8 k(3)]
  have "laid (mem ?s) ?h (xs @ ?new @ ys)"
  proof (rule laid_replace[OF l])
    show "total ?new = total [(c, False)]" by simp
    show "chain (mem ?s) (?h + total xs) ?new"
      using pp by (simp add: q)
    show "mem ?s a = mem s a"
      if "a < ?h + total xs - 4 \<or> ?h + total xs + total [(c, False)] - 4 \<le> a" for a
      using that pp by (auto simp: q)
  qed
  moreover have "trav ?s \<in> set (starts ?h (xs @ ?new @ ys))"
    using t pp by (auto simp: starts_append)
  moreover have "good (xs @ ?new @ ys)"
    using good_put_split[OF g xs k(2)] good_put_whole[OF g xs] by simp
  moreover have "set (allocd ?h (xs @ ?new @ ys)) = insert q (set (allocd ?h (xs @ (c, False) # ys)))"
    by (auto simp: allocd_append q)
  ultimately have main: "heap_inv ?s (xs @ ?new @ ys) \<and> total (xs @ ?new @ ys) = total (xs @ (c, False) # ys)
      \<and> set (allocd ?h (xs @ ?new @ ys)) = insert q (set (allocd ?h (xs @ (c, False) # ys)))"
    using inv pp by (simp add: heap_inv_def)
  show ?thesis
  proof (cases "16 \<le> c - ?k")
    case True
    with main pp k show ?thesis
      by (intro exI[of _ ?k] exI[of _ "(c - ?k, False) # ys"]) simp
  next
    case False
    with main pp k show ?thesis
      by (intro exI[of _ c] exI[of _ ys]) simp
  qed
qed

section \<open>Allocation preserves the invariant\<close>

lemma adjusted_size_uint:
  fixes sz :: size_t
  assumes "sz \<le> - 16"
  shows "uint (adjusted_size sz) = (if uint sz \<le> 8 then 16 else 8 * ((uint sz + 15) div 8))"
proof -
  have m: "uint (- 16 :: size_t) = 2 ^ 64 - 16" by simp
  from assms have le: "uint sz \<le> 2 ^ 64 - 16"
    unfolding word_le_def m .
  have s8: "sz \<le> 8 \<longleftrightarrow> uint sz \<le> 8"
    by (simp add: word_le_def)
  show ?thesis
  proof (cases "uint sz \<le> 8")
    case True
    then show ?thesis by (simp add: adjusted_size_def s8)
  next
    case False
    have a: "uint (sz + 8 + 7) = uint sz + 15"
      using le uint_ge_0[of sz] by (simp add: uint_word_ariths take_bit_int_eq_self)
    have d: "uint ((sz + 8 + 7) div 8) = (uint sz + 15) div 8"
      using a by (simp add: uint_div)
    have "uint (8 * ((sz + 8 + 7) div 8)) = (8 * uint ((sz + 8 + 7) div 8)) mod 2 ^ 64"
      by (simp add: uint_word_ariths take_bit_eq_mod)
    also have "\<dots> = (8 * ((uint sz + 15) div 8)) mod 2 ^ 64"
      unfolding d ..
    also have "\<dots> = 8 * ((uint sz + 15) div 8)"
    proof (rule mod_pos_pos_trivial)
      have "0 \<le> uint sz" by simp
      then show "0 \<le> 8 * ((uint sz + 15) div 8)" by arith
      from le show "8 * ((uint sz + 15) div 8) < 2 ^ 64" by simp
    qed
    finally show ?thesis
      using False by (simp add: adjusted_size_def s8)
  qed
qed

lemma adjusted_size_props:
  fixes sz :: size_t
  assumes "sz \<le> - 16"
  shows "8 dvd uint (adjusted_size sz)" and "16 \<le> uint (adjusted_size sz)"
    and "uint sz + 8 \<le> uint (adjusted_size sz)"
  using uint_ge_0[of sz] unfolding adjusted_size_uint[OF assms] by (auto split: if_splits)

lemma adjusted_size_dvd: "8 dvd uint (adjusted_size (sz :: size_t))"
proof (cases "sz \<le> 8")
  case True
  then show ?thesis by (simp add: adjusted_size_def)
next
  case False
  have "uint (8 * ((sz + 8 + 7) div 8)) = (8 * uint ((sz + 8 + 7) div 8)) mod 2 ^ 64"
    by (simp add: uint_word_ariths take_bit_eq_mod)
  moreover have "(8::int) dvd (8 * x) mod 2 ^ 64" for x
    by (simp add: dvd_mod)
  ultimately show ?thesis
    using False by (simp add: adjusted_size_def)
qed


lemma fit_inv:
  assumes inv: "heap_inv s F"
  shows "(\<exists>xs c ys. F = xs @ (c, False) # ys \<and> xs \<noteq> [] \<and> uint adj \<le> c
            \<and> fit s adj = Some (s\<lparr>trav := heapL s + total xs\<rparr>, heapL s + total xs))
       \<or> (fit s adj = Some (s, NULL) \<and> \<not> (\<exists>b\<in>set F. \<not> snd b \<and> uint adj \<le> fst b))"
proof -
  let ?h = "heapL s" and ?k = "uint adj"
  from heap_inv_blocks[OF inv] obtain bs where F: "F = (8, True) # bs"
    and l: "layout (mem s) ?h bs"
    by blast
  from inv have "trav s \<in> set (starts ?h F)" by (simp add: heap_inv_def)
  then have "trav s = ?h \<or> trav s \<in> set (starts (?h + 8) bs)"
    by (simp add: F)
  then have "\<exists>before after. bs = before @ after \<and>
      fit s adj = (case next_fit (?h + 8) before after ?k of
        Some q \<Rightarrow> Some (s\<lparr>trav := q\<rparr>, q) | None \<Rightarrow> Some (s, NULL))"
  proof
    assume "trav s = ?h"
    from fit_at_sentinel[OF l this, of adj] show ?thesis
      by (intro exI[of _ "[]"] exI[of _ bs]) simp
  next
    assume "trav s \<in> set (starts (?h + 8) bs)"
    from starts_split[OF this] obtain before after
      where b: "bs = before @ after" and t: "trav s = ?h + 8 + total before"
      by blast
    from fit_at_block[OF l[unfolded b] t, of adj] b show ?thesis
      by blast
  qed
  then obtain before after where b: "bs = before @ after"
    and f: "fit s adj = (case next_fit (?h + 8) before after ?k of
        Some q \<Rightarrow> Some (s\<lparr>trav := q\<rparr>, q) | None \<Rightarrow> Some (s, NULL))"
    by blast
  show ?thesis
  proof (cases "next_fit (?h + 8) before after ?k")
    case None
    then have "\<not> (\<exists>b\<in>set bs. \<not> snd b \<and> ?k \<le> fst b)"
      unfolding next_fit_None b .
    with None f show ?thesis
      by (simp add: F)
  next
    case (Some q)
    from next_fit_Some[OF this] obtain xs c ys
      where "before @ after = xs @ (c, False) # ys" "q = ?h + 8 + total xs" "?k \<le> c"
      by blast
    then have "F = ((8, True) # xs) @ (c, False) # ys \<and> (8, True) # xs \<noteq> [] \<and> ?k \<le> c
        \<and> fit s adj = Some (s\<lparr>trav := ?h + total ((8, True) # xs)\<rparr>, ?h + total ((8, True) # xs))"
      using f Some by (simp add: F b add.assoc)
    then show ?thesis by blast
  qed
qed


lemma good_last_free:
  assumes "good (xs @ [(pn, False)])"
  shows "xs \<noteq> []"
  using assms by (auto simp: good_def)

lemma grow_inv:
  assumes inv: "heap_inv s F"
    and g: "8 dvd uint g" "16 \<le> uint g"
    and ok: "mem_brk s + uint g \<le> mem_max_addr s"
  shows "\<exists>s' xs N. grow_heap s (g div 4) = (s', heapL s + total xs)
      \<and> heap_inv s' (xs @ [(N, False)]) \<and> xs \<noteq> [] \<and> uint g \<le> N
      \<and> set (allocd (heapL s) (xs @ [(N, False)])) = set (allocd (heapL s) F)
      \<and> total (xs @ [(N, False)]) = total F + uint g
      \<and> heapL s' = heapL s \<and> mem_brk s' = mem_brk s + uint g
      \<and> mem_max_addr s' = mem_max_addr s"
proof -
  let ?h = "heapL s" and ?g = "uint g"
  from inv have "F \<noteq> []" by (simp add: heap_inv_def good_def)
  then obtain xs0 pn pa where F: "F = xs0 @ [(pn, pa)]"
    by (cases F rule: rev_cases) auto
  from inv have l: "laid (mem s) ?h (xs0 @ [(pn, pa)])"
    and e: "mem_brk s = ?h + total xs0 + pn"
    and bound: "mem_max_addr s - ?h < 2 ^ 32" and h: "0 < ?h"
    and t: "trav s \<in> set (starts ?h (xs0 @ [(pn, pa)]))"
    and gd: "good (xs0 @ [(pn, pa)])"
    by (simp_all add: heap_inv_def F)
  from g have g8: "8 \<le> ?g" by simp
  from l have pn: "8 \<le> pn" by (simp add: laid_def chain_append blk_def)
  from grow_heap_laid[OF l e g(1) g8 ok bound h t]
  obtain s' where gr: "grow_heap s (g div 4) = (s', if pa then mem_brk s else mem_brk s - pn)"
    and r: "laid (mem s') ?h (xs0 @ absorb (pn, pa) [(?g, False)])"
      "trav s' \<in> set (starts ?h (xs0 @ absorb (pn, pa) [(?g, False)]))"
      "heapL s' = ?h" "mem_brk s' = mem_brk s + ?g" "mem_max_addr s' = mem_max_addr s"
    by blast
  have gd': "good (xs0 @ absorb (pn, pa) [(?g, False)])"
    by (rule good_grow[OF gd g(2)])
  have hi: "heap_inv s' (xs0 @ absorb (pn, pa) [(?g, False)])"
    using r gd' h ok bound e by (cases pa) (simp_all add: heap_inv_def)
  show ?thesis
  proof (cases pa)
    case True
    have "grow_heap s (g div 4) = (s', ?h + total F) \<and> heap_inv s' (F @ [(?g, False)])
        \<and> F \<noteq> [] \<and> ?g \<le> ?g
        \<and> set (allocd ?h (F @ [(?g, False)])) = set (allocd ?h F)
        \<and> total (F @ [(?g, False)]) = total F + ?g
        \<and> heapL s' = ?h \<and> mem_brk s' = mem_brk s + ?g \<and> mem_max_addr s' = mem_max_addr s"
      using gr hi r True e by (simp add: F allocd_append)
    then show ?thesis by blast
  next
    case False
    have "xs0 \<noteq> []"
      using gd False by (auto dest: good_last_free)
    then have "grow_heap s (g div 4) = (s', ?h + total xs0) \<and> heap_inv s' (xs0 @ [(pn + ?g, False)])
        \<and> xs0 \<noteq> [] \<and> ?g \<le> pn + ?g
        \<and> set (allocd ?h (xs0 @ [(pn + ?g, False)])) = set (allocd ?h F)
        \<and> total (xs0 @ [(pn + ?g, False)]) = total F + ?g
        \<and> heapL s' = ?h \<and> mem_brk s' = mem_brk s + ?g \<and> mem_max_addr s' = mem_max_addr s"
      using gr hi r False e pn by (simp add: F allocd_append)
    then show ?thesis by blast
  qed
qed


lemma CHUNKSIZE_val: "CHUNKSIZE = 4096"
  by (simp add: CHUNKSIZE_def)

definition growsize :: "size_t \<Rightarrow> size_t" where
  "growsize adj_size = (if adj_size > CHUNKSIZE then adj_size else CHUNKSIZE)"

lemma growsize_uint: "uint (growsize adj) = max (uint adj) 4096"
  by (simp add: growsize_def CHUNKSIZE_val word_less_def)

lemma heap_inv_trav:
  "heap_inv s (xs @ b # ys) \<Longrightarrow> heap_inv (s\<lparr>trav := heapL s + total xs\<rparr>) (xs @ b # ys)"
  by (simp add: heap_inv_def starts_append)

lemma heap_inv_pos:
  assumes "heap_inv s (xs @ ys)"
  shows "0 < heapL s + total xs"
proof -
  from assms have "chain (mem s) (heapL s) xs" "0 < heapL s"
    by (simp_all add: heap_inv_def laid_def chain_append)
  then show ?thesis
    using chain_total_nonneg[of "mem s" "heapL s" xs] by simp
qed

lemma mm_malloc_inv:
  assumes inv: "heap_inv s F" and nz: "sz \<noteq> 0" and nw: "sz \<le> - 16"
  shows "\<exists>s' p F'. mm_malloc s sz = Some (s', p) \<and> heap_inv s' F'
      \<and> heapL s' = heapL s \<and> mem_max_addr s' = mem_max_addr s
      \<and> (if p = NULL then s' = s \<and> F' = F
          else \<exists>xs c ys. F' = xs @ (c, True) # ys \<and> xs \<noteq> [] \<and> p = heapL s + total xs
              \<and> uint sz + 8 \<le> c
              \<and> set (allocd (heapL s) F') = insert p (set (allocd (heapL s) F)))"
proof -
  let ?h = "heapL s" and ?adj = "adjusted_size sz"
  let ?k = "uint ?adj" and ?g = "growsize ?adj"
  note ap = adjusted_size_props[OF nw]
  from inv have h: "?h \<noteq> 0" by (simp add: heap_inv_def)
  have mm: "mm_malloc s sz =
     (case fit s ?adj of None \<Rightarrow> None
      | Some (s1, ptr) \<Rightarrow>
          if ptr \<noteq> NULL then Some (put s1 ptr ?adj, ptr)
          else case grow_heap s1 (?g div 4) of
                 (s2, ptr) \<Rightarrow> if ptr = NULL then Some (s2, NULL) else Some (put s2 ptr ?adj, ptr))"
    unfolding mm_malloc_def growsize_def Let_def using h nz by simp
  from fit_inv[OF inv, of ?adj] show ?thesis
  proof (elim disjE exE conjE)
    fix xs c ys
    assume F: "F = xs @ (c, False) # ys" and xs: "xs \<noteq> []" and kc: "?k \<le> c"
      and f: "fit s ?adj = Some (s\<lparr>trav := ?h + total xs\<rparr>, ?h + total xs)"
    let ?q = "?h + total xs" and ?s1 = "s\<lparr>trav := ?h + total xs\<rparr>"
    from inv have i1: "heap_inv ?s1 (xs @ (c, False) # ys)"
      unfolding F by (rule heap_inv_trav)
    have q0: "?q \<noteq> NULL"
      using heap_inv_pos[OF inv[unfolded F]] by (simp add: NULL_def)
    from put_inv[OF i1 xs _ ap(1,2) kc, of ?q]
    obtain c' ys' where r: "heap_inv (put ?s1 ?q ?adj) (xs @ (c', True) # ys')" "?k \<le> c'"
      "set (allocd ?h (xs @ (c', True) # ys')) = insert ?q (set (allocd ?h F))"
      "heapL (put ?s1 ?q ?adj) = ?h" "mem_max_addr (put ?s1 ?q ?adj) = mem_max_addr s"
      by (auto simp: F)
    have "mm_malloc s sz = Some (put ?s1 ?q ?adj, ?q)"
      using q0 by (simp add: mm f)
    moreover have "\<exists>xs' c ys. xs @ (c', True) # ys' = xs' @ (c, True) # ys \<and> xs' \<noteq> []
        \<and> ?q = ?h + total xs' \<and> uint sz + 8 \<le> c
        \<and> set (allocd ?h (xs @ (c', True) # ys')) = insert ?q (set (allocd ?h F))"
      using r xs ap(3) by (intro exI[of _ xs] exI[of _ c'] exI[of _ ys']) simp
    ultimately show ?thesis
      using r q0
      by (intro exI[of _ "put ?s1 ?q ?adj"] exI[of _ ?q] exI[of _ "xs @ (c', True) # ys'"])
        simp
  next
    assume f: "fit s ?adj = Some (s, NULL)"
    have g: "8 dvd uint ?g" "16 \<le> uint ?g" "?k \<le> uint ?g"
      using ap by (simp_all add: growsize_uint max_def)
    show ?thesis
    proof (cases "mem_brk s + uint ?g \<le> mem_max_addr s")
      case False
      then have "grow_heap s (?g div 4) = (s, NULL)"
        by (intro grow_heap_fail g) simp
      then have "mm_malloc s sz = Some (s, NULL)"
        by (simp add: mm f)
      with inv show ?thesis by simp
    next
      case True
      from grow_inv[OF inv g(1,2) True]
      obtain s2 xs N where gr: "grow_heap s (?g div 4) = (s2, ?h + total xs)"
        and i2: "heap_inv s2 (xs @ (N, False) # [])" and xs: "xs \<noteq> []" and gN: "uint ?g \<le> N"
        and al: "set (allocd ?h (xs @ [(N, False)])) = set (allocd ?h F)"
        and fl: "heapL s2 = ?h" "mem_max_addr s2 = mem_max_addr s"
        by auto
      let ?q = "?h + total xs"
      have q0: "?q \<noteq> NULL"
        using heap_inv_pos[OF i2] fl by (simp add: NULL_def)
      have kN: "?k \<le> N" using g(3) gN by simp
      from put_inv[OF i2 xs _ ap(1,2) kN, of ?q] fl
      obtain c' ys' where r: "heap_inv (put s2 ?q ?adj) (xs @ (c', True) # ys')" "?k \<le> c'"
        "set (allocd ?h (xs @ (c', True) # ys')) = insert ?q (set (allocd ?h (xs @ [(N, False)])))"
        "heapL (put s2 ?q ?adj) = ?h" "mem_max_addr (put s2 ?q ?adj) = mem_max_addr s"
        by auto
      have "mm_malloc s sz = Some (put s2 ?q ?adj, ?q)"
        using q0 by (simp add: mm f gr)
      moreover have "\<exists>xs' c ys. xs @ (c', True) # ys' = xs' @ (c, True) # ys \<and> xs' \<noteq> []
          \<and> ?q = ?h + total xs' \<and> uint sz + 8 \<le> c
          \<and> set (allocd ?h (xs @ (c', True) # ys')) = insert ?q (set (allocd ?h F))"
        using r xs ap(3) al by (intro exI[of _ xs] exI[of _ c'] exI[of _ ys']) simp
      ultimately show ?thesis
        using r q0
        by (intro exI[of _ "put s2 ?q ?adj"] exI[of _ ?q] exI[of _ "xs @ (c', True) # ys'"])
          simp
    qed
  qed
qed

section \<open>Freeing and initialisation preserve the invariant\<close>

lemma allocd_absorb:
  "set (allocd q (absorb (pn, pa) (absorb_next n ys))) = set (allocd q ((pn, pa) # (n, False) # ys))"
  by (cases ys rule: next_free_size.cases; cases pa) (simp_all add: add.assoc)

lemma total_absorb:
  "total (absorb (pn, pa) (absorb_next n ys)) = pn + n + total ys"
  by (cases ys rule: next_free_size.cases; cases pa) simp_all

lemma mm_free_inv:
  assumes inv: "heap_inv s F" and p: "p \<in> set (allocd (heapL s) F)" "p \<noteq> heapL s"
  shows "\<exists>F'. heap_inv (mm_free s p) F' \<and> total F' = total F
      \<and> set (allocd (heapL s) F) - {p} \<subseteq> set (allocd (heapL s) F')
      \<and> heapL (mm_free s p) = heapL s \<and> mem_max_addr (mm_free s p) = mem_max_addr s"
proof -
  let ?h = "heapL s" and ?s = "mm_free s p"
  from allocd_split[OF p(1)] obtain xs n ys where F: "F = xs @ (n, True) # ys"
    and px: "p = ?h + total xs"
    by blast
  from p(2) px have "xs \<noteq> []" by auto
  then obtain xs0 pn pa where xs: "xs = xs0 @ [(pn, pa)]"
    by (cases xs rule: rev_cases) auto
  let ?F = "xs0 @ (pn, pa) # (n, True) # ys"
  let ?F' = "xs0 @ absorb (pn, pa) (absorb_next n ys)"
  have F': "F = ?F" by (simp add: F xs)
  from inv have l: "laid (mem s) ?h ?F" and h: "0 < ?h" and brk: "mem_brk s = ?h + total ?F"
    and t: "trav s \<in> set (starts ?h ?F)" and g: "good ?F"
    and le: "mem_brk s \<le> mem_max_addr s" and bound: "mem_max_addr s - ?h < 2 ^ 32"
    by (simp_all add: heap_inv_def F')
  have pp: "p = ?h + total xs0 + pn" by (simp add: px xs)
  have p0: "p \<noteq> 0"
    using heap_inv_pos[OF inv[unfolded F]] px by simp
  have b: "total ?F < 2 ^ 32" using brk le bound by simp
  from h have h0: "?h \<noteq> 0" by simp
  note fr = mm_free_laid[OF l pp h0 p0 b t]
  have "heap_inv ?s ?F'"
    using fr h brk le bound good_free[OF g] by (simp add: heap_inv_def total_absorb)
  moreover have "total ?F' = total F"
    by (simp add: F' total_absorb)
  moreover have "set (allocd ?h F) - {p} \<subseteq> set (allocd ?h ?F')"
    by (auto simp: F' allocd_append allocd_absorb pp)
  ultimately show ?thesis
    using fr by blast
qed


lemma mm_init_inv:
  assumes st: "0 \<le> mem_brk s"
    and room: "mem_brk s + 4112 \<le> mem_max_addr s"
    and bound: "mem_max_addr s - mem_brk s < 2 ^ 32"
  shows "\<exists>s'. mm_init s = (s', 0) \<and> heap_inv s' [(8, True), (4096, False)]
      \<and> heapL s' = mem_brk s + 8 \<and> mem_brk s' = mem_brk s + 4112
      \<and> mem_max_addr s' = mem_max_addr s"
proof -
  let ?b = "mem_brk s"
  let ?m4 = "WRITE (WRITE (WRITE (WRITE (mem s) ?b 0) (?b + 4) (tag 8 True)) (?b + 8) (tag 8 True))
               (?b + 12) (tag 0 True)"
  let ?s4 = "s\<lparr>mem_brk := ?b + 16, mem := ?m4, heapL := ?b + 8, trav := ?b + 8\<rparr>"
  have t8: "(ucast (HF 8 1 :: size_t) :: u32) = tag 8 True"
    using HF_tag_True[of 8] by simp
  have t0: "(ucast (HF 0 1 :: size_t) :: u32) = tag 0 True"
    using HF_tag_True[of 0] by simp
  have ini: "mm_init s = (case grow_heap ?s4 (CHUNKSIZE div 4) of
      (s5, r) \<Rightarrow> if r = NULL then (s5, -1) else (s5, 0))"
    unfolding mm_init_def Let_def using st room
    by (simp add: mem_sbrk_def t8 t0)
  have l: "laid (mem ?s4) (?b + 8) ([] @ [(8, True)])"
    by (simp add: laid_def blk_def READ_WRITE)
  have g: "8 dvd uint CHUNKSIZE" "8 \<le> uint CHUNKSIZE" "uint CHUNKSIZE = 4096"
    by (simp_all add: CHUNKSIZE_val)
  have pre: "mem_brk ?s4 = ?b + 8 + total [] + 8"
    "mem_brk ?s4 + uint CHUNKSIZE \<le> mem_max_addr ?s4"
    "mem_max_addr ?s4 - (?b + 8) < 2 ^ 32" "0 < ?b + 8"
    "trav ?s4 \<in> set (starts (?b + 8) ([] @ [(8, True)]))"
    using st room bound g(3) by simp_all
  from grow_heap_laid[OF l pre(1) g(1,2) pre(2-5)] g(3)
  obtain s' where gr: "grow_heap ?s4 (CHUNKSIZE div 4) = (s', ?b + 16)"
    and r: "laid (mem s') (?b + 8) [(8, True), (4096, False)]"
      "trav s' \<in> set (starts (?b + 8) [(8, True), (4096, False)])"
      "heapL s' = ?b + 8" "mem_brk s' = ?b + 4112" "mem_max_addr s' = mem_max_addr s"
    by auto
  have "mm_init s = (s', 0)"
    using st by (simp add: ini gr NULL_def)
  moreover have "heap_inv s' [(8, True), (4096, False)]"
    using r st room bound by (simp add: heap_inv_def good_def)
  ultimately show ?thesis
    using r by blast
qed

section \<open>Sequences of calls\<close>

datatype call = Malloc size_t | Free addr

datatype error = Diverges | InvalidFree

fun run :: "call list \<Rightarrow> state \<times> addr list \<Rightarrow> error + state \<times> addr list" where
  "run [] c = Inr c"
| "run (Malloc n # cs) (s, live) =
     (case mm_malloc s n of
        None \<Rightarrow> Inl Diverges
      | Some (s', p) \<Rightarrow> run cs (s', if p = NULL then live else p # live))"
| "run (Free p # cs) (s, live) =
     (if p = NULL then run cs (mm_free s p, live)
      else if p \<in> set live then run cs (mm_free s p, removeAll p live)
      else Inl InvalidFree)"

fun no_wrap :: "call \<Rightarrow> bool" where
  "no_wrap (Malloc n) = (n \<le> - 16)"
| "no_wrap (Free p) = True"

definition tracked :: "state \<Rightarrow> addr list \<Rightarrow> bool" where
  "tracked s live \<longleftrightarrow>
     (\<exists>F. heap_inv s F \<and> set live \<subseteq> set (allocd (heapL s) F) - {heapL s})"

partial_function (option) scan :: "memory \<Rightarrow> addr \<Rightarrow> block list option" where
  "scan m p =
     (if GET_SIZE m (HEAD p) > 0 then
        Option.bind (scan m (NEXT m p))
          (\<lambda>bs. Some ((uint (GET_SIZE m (HEAD p)), GET_ALLOC m (HEAD p) \<noteq> 0) # bs))
      else Some [])"

definition heap_blocks :: "state \<Rightarrow> block list option" where
  "heap_blocks s = scan (mem s) (NEXT (mem s) (heapL s))"

lemma mm_malloc_zero: "heapL s \<noteq> 0 \<Longrightarrow> mm_malloc s 0 = Some (s, NULL)"
  by (simp add: mm_malloc_def)

lemma mm_free_NULL: "mm_free s NULL = s"
  by (simp add: mm_free_def NULL_def)

lemma run_tracked:
  assumes "tracked s live" and "list_all no_wrap cs"
  shows "run cs (s, live) \<noteq> Inl Diverges
      \<and> (\<forall>s' live'. run cs (s, live) = Inr (s', live') \<longrightarrow>
            tracked s' live' \<and> heapL s' = heapL s \<and> mem_max_addr s' = mem_max_addr s)"
  using assms
proof (induction cs arbitrary: s live)
  case Nil
  then show ?case by simp
next
  case (Cons c cs)
  from Cons.prems(2) have nw: "no_wrap c" and rest: "list_all no_wrap cs" by simp_all
  from Cons.prems(1) obtain F where inv: "heap_inv s F"
    and lv: "set live \<subseteq> set (allocd (heapL s) F) - {heapL s}"
    by (auto simp: tracked_def)
  show ?case
  proof (cases c)
    case (Malloc n)
    show ?thesis
    proof (cases "n = 0")
      case True
      from inv have "heapL s \<noteq> 0" by (simp add: heap_inv_def)
      with True Malloc Cons.IH[OF Cons.prems(1) rest] show ?thesis
        by (simp add: mm_malloc_zero)
    next
      case False
      from nw Malloc have "n \<le> - 16" by simp
      from mm_malloc_inv[OF inv False this]
      obtain s' p F' where m: "mm_malloc s n = Some (s', p)" and i': "heap_inv s' F'"
        and f: "heapL s' = heapL s" "mem_max_addr s' = mem_max_addr s"
        and r: "if p = NULL then s' = s \<and> F' = F
          else \<exists>xs c ys. F' = xs @ (c, True) # ys \<and> xs \<noteq> [] \<and> p = heapL s + total xs
              \<and> uint n + 8 \<le> c
              \<and> set (allocd (heapL s) F') = insert p (set (allocd (heapL s) F))"
        by blast
      have "tracked s' (if p = NULL then live else p # live)"
      proof (cases "p = NULL")
        case True
        with r Cons.prems(1) show ?thesis by simp
      next
        case False
        with r obtain xs c ys where F': "F' = xs @ (c, True) # ys" and xs: "xs \<noteq> []"
          and p: "p = heapL s + total xs"
          and a: "set (allocd (heapL s) F') = insert p (set (allocd (heapL s) F))"
          by auto
        from i' have "chain (mem s') (heapL s) xs"
          by (simp add: heap_inv_def laid_def F' chain_append f)
        then have "0 < total xs"
          using xs chain_total_nonneg[of "mem s'" "heapL s + fst (hd xs)" "tl xs"]
          by (cases xs) (auto simp: blk_def)
        then have "p \<noteq> heapL s" using p by simp
        with i' lv a False show ?thesis
          by (auto simp: tracked_def f)
      qed
      from Cons.IH[OF this rest] m Malloc f show ?thesis
        by simp
    qed
  next
    case (Free p)
    show ?thesis
    proof (cases "p = NULL")
      case True
      with Free Cons.IH[OF Cons.prems(1) rest] show ?thesis
        by (simp add: mm_free_NULL)
    next
      case False
      show ?thesis
      proof (cases "p \<in> set live")
        case False
        with \<open>p \<noteq> NULL\<close> Free show ?thesis by simp
      next
        case True
        with lv have "p \<in> set (allocd (heapL s) F)" "p \<noteq> heapL s" by auto
        from mm_free_inv[OF inv this]
        obtain F' where i': "heap_inv (mm_free s p) F'"
          and a: "set (allocd (heapL s) F) - {p} \<subseteq> set (allocd (heapL s) F')"
          and f: "heapL (mm_free s p) = heapL s" "mem_max_addr (mm_free s p) = mem_max_addr s"
          by blast
        have "tracked (mm_free s p) (removeAll p live)"
          using i' a lv by (auto simp: tracked_def f)
        from Cons.IH[OF this rest] True \<open>p \<noteq> NULL\<close> Free f show ?thesis
          by simp
      qed
    qed
  qed
qed

section \<open>Scanning the heap\<close>

lemma scan_chain:
  "chain m p bs \<Longrightarrow> READ m (p + total bs - 4) = tag 0 True \<Longrightarrow> scan m p = Some bs"
proof (induction bs arbitrary: p)
  case Nil
  then show ?case
    by (subst scan.simps) (simp add: end_GET_SIZE)
next
  case (Cons b bs)
  from Cons.prems have b: "blk m p b" by simp
  have "scan m (p + fst b) = Some bs"
    using Cons.prems by (intro Cons.IH) (simp_all add: add.assoc)
  then show ?case
    by (subst scan.simps, cases b)
      (auto simp add: blk_GET_SIZE(1,2,4)[OF b] blk_NEXT[OF b])
qed

lemma heap_blocks_inv:
  assumes "heap_inv s F"
  shows "heap_blocks s = Some (tl F)"
proof -
  from heap_inv_blocks[OF assms] obtain bs where F: "F = (8, True) # bs"
    and l: "layout (mem s) (heapL s) bs"
    by blast
  from l have b: "blk (mem s) (heapL s) (8, True)" and c: "chain (mem s) (heapL s + 8) bs"
    and e: "READ (mem s) (heapL s + 8 + total bs - 4) = tag 0 True"
    by (simp_all add: layout_def)
  show ?thesis
    unfolding heap_blocks_def using blk_NEXT[OF b] scan_chain[OF c e] by (simp add: F)
qed

section \<open>Searching, growing and failing\<close>

lemma fit_refines:
  assumes l: "layout (mem s) (heapL s) (before @ after)"
    and t: "trav s = heapL s + 8 + total before \<or> before = [] \<and> trav s = heapL s"
  shows "fit s adj =
      (case next_fit (heapL s + 8) before after (uint adj) of
         Some q \<Rightarrow> Some (s\<lparr>trav := q\<rparr>, q)
       | None \<Rightarrow> Some (s, NULL))
    \<and> ((next_fit (heapL s + 8) before after (uint adj) = None) =
        (\<not> (\<exists>b\<in>set (before @ after). \<not> snd b \<and> uint adj \<le> fst b)))"
proof -
  from t have "fit s adj =
      (case next_fit (heapL s + 8) before after (uint adj) of
         Some q \<Rightarrow> Some (s\<lparr>trav := q\<rparr>, q)
       | None \<Rightarrow> Some (s, NULL))"
  proof
    assume "trav s = heapL s + 8 + total before"
    with l show ?thesis by (rule fit_at_block)
  next
    assume a: "before = [] \<and> trav s = heapL s"
    with l have "layout (mem s) (heapL s) after" by simp
    from fit_at_sentinel[OF this, of adj] a show ?thesis by simp
  qed
  then show ?thesis
    by (simp only: next_fit_None simp_thms)
qed

lemma mm_malloc_unfold:
  assumes "heapL s \<noteq> 0" and "sz \<noteq> 0"
  shows "mm_malloc s sz =
     (case fit s (adjusted_size sz) of None \<Rightarrow> None
      | Some (s1, ptr) \<Rightarrow>
          if ptr \<noteq> NULL then Some (put s1 ptr (adjusted_size sz), ptr)
          else case grow_heap s1 (growsize (adjusted_size sz) div 4) of
                 (s2, ptr) \<Rightarrow> if ptr = NULL then Some (s2, NULL)
                              else Some (put s2 ptr (adjusted_size sz), ptr))"
  unfolding mm_malloc_def growsize_def Let_def using assms by simp

lemma growsize_props:
  "8 dvd uint (growsize (adjusted_size (sz :: size_t)))"
  "16 \<le> uint (growsize (adjusted_size (sz :: size_t)))"
  using adjusted_size_dvd[of sz] by (simp_all add: growsize_uint max_def)

lemma malloc_miss:
  assumes inv: "heap_inv s F" and nz: "sz \<noteq> 0"
    and miss: "fit s (adjusted_size sz) = Some (s1, NULL)"
  shows "s1 = s \<and>
    (if mem_brk s + max (uint (adjusted_size sz)) 4096 \<le> mem_max_addr s
     then \<exists>s2 xs N. grow_heap s (growsize (adjusted_size sz) div 4) = (s2, heapL s + total xs)
         \<and> mem_brk s2 = mem_brk s + max (uint (adjusted_size sz)) 4096
         \<and> heap_inv s2 (xs @ [(N, False)]) \<and> max (uint (adjusted_size sz)) 4096 \<le> N
         \<and> heapL s + total xs \<noteq> NULL
         \<and> mm_malloc s sz = Some (put s2 (heapL s + total xs) (adjusted_size sz), heapL s + total xs)
     else mm_malloc s sz = Some (s, NULL) \<and> grow_heap s (growsize (adjusted_size sz) div 4) = (s, NULL))"
proof -
  let ?adj = "adjusted_size sz" and ?h = "heapL s"
  let ?g = "growsize ?adj"
  from inv have h: "?h \<noteq> 0" by (simp add: heap_inv_def)
  note mm = mm_malloc_unfold[OF h nz]
  from fit_inv[OF inv, of ?adj] have s1: "s1 = s"
  proof (elim disjE exE conjE)
    fix xs c ys
    assume F: "F = xs @ (c, False) # ys"
      and f: "fit s ?adj = Some (s\<lparr>trav := ?h + total xs\<rparr>, ?h + total xs)"
    from heap_inv_pos[OF inv[unfolded F]] f miss show ?thesis
      by (simp add: NULL_def)
  next
    assume "fit s ?adj = Some (s, NULL)"
    with miss show ?thesis by simp
  qed
  note g = growsize_props[of sz]
  show ?thesis
  proof (cases "mem_brk s + max (uint ?adj) 4096 \<le> mem_max_addr s")
    case False
    then have "grow_heap s (?g div 4) = (s, NULL)"
      by (intro grow_heap_fail g) (simp add: growsize_uint)
    with False s1 miss show ?thesis
      by (simp add: mm)
  next
    case True
    then have ok: "mem_brk s + uint ?g \<le> mem_max_addr s"
      by (simp add: growsize_uint)
    from grow_inv[OF inv g ok]
    obtain s2 xs N where gr: "grow_heap s (?g div 4) = (s2, ?h + total xs)"
      and i2: "heap_inv s2 (xs @ [(N, False)])" and gN: "uint ?g \<le> N"
      and fl: "heapL s2 = ?h" "mem_brk s2 = mem_brk s + uint ?g"
      by auto
    have q0: "?h + total xs \<noteq> NULL"
      using heap_inv_pos[OF i2] fl by (simp add: NULL_def)
    have "mm_malloc s sz = Some (put s2 (?h + total xs) ?adj, ?h + total xs)"
      using q0 miss s1 by (simp add: mm gr)
    with True s1 gr i2 gN fl q0 show ?thesis
      by (auto simp: growsize_uint)
  qed
qed

lemma mm_malloc_NULL:
  assumes inv: "heap_inv s F" and nz: "sz \<noteq> 0" and r: "mm_malloc s sz = Some (s1, NULL)"
  shows "s1 = s"
proof -
  let ?adj = "adjusted_size sz" and ?h = "heapL s"
  from inv have h: "?h \<noteq> 0" by (simp add: heap_inv_def)
  note mm = mm_malloc_unfold[OF h nz]
  from fit_inv[OF inv, of ?adj] show ?thesis
  proof (elim disjE exE conjE)
    fix xs c ys
    assume F: "F = xs @ (c, False) # ys"
      and f: "fit s ?adj = Some (s\<lparr>trav := ?h + total xs\<rparr>, ?h + total xs)"
    from heap_inv_pos[OF inv[unfolded F]] have "?h + total xs \<noteq> NULL"
      by (simp add: NULL_def)
    with r show ?thesis
      by (simp add: mm f)
  next
    assume f: "fit s ?adj = Some (s, NULL)"
    from malloc_miss[OF inv nz f] r show ?thesis
      by (auto split: if_splits)
  qed
qed

lemma realloc_fails:
  assumes inv: "heap_inv s F" and p: "ptr \<noteq> NULL" and nz: "sz \<noteq> 0"
    and fail: "mm_malloc s sz = Some (s1, NULL)"
  shows "mm_realloc s ptr sz = Some (s, NULL)"
  using mm_malloc_NULL[OF inv nz fail] fail p nz
  by (simp add: mm_realloc_def NULL_def)

section \<open>Wrap-around of the adjusted size\<close>

lemma adjusted_size_wrap:
  fixes sz :: "'a::len word"
  assumes len: "4 < LENGTH('a)" and big: "- 16 < sz"
  shows "adjusted_size sz < sz \<and> adjusted_size sz \<le> 8"
proof -
  let ?W = "(2::int) ^ LENGTH('a)"
  have "(2::int) ^ 5 \<le> ?W"
    using len by (intro power_increasing) auto
  then have W: "32 \<le> ?W" by simp
  from W have W8: "8 < ?W" and W16: "16 < ?W" and W15: "15 < ?W" by simp_all
  have u8: "uint (8 :: 'a word) = 8"
    using W8 by (simp add: take_bit_int_eq_self)
  have u16: "uint (16 :: 'a word) = 16"
    using W16 by (simp add: take_bit_int_eq_self)
  have u15: "uint (15 :: 'a word) = 15"
    using W15 by (simp add: take_bit_int_eq_self)
  have "uint (- 16 :: 'a word) = (- 16) mod ?W"
    by (simp only: uint_word_ariths take_bit_eq_mod u16)
  also have "\<dots> = (?W - 16) mod ?W"
    by (simp add: mod_diff_left_eq)
  also have "\<dots> = ?W - 16"
    using W16 by (intro mod_pos_pos_trivial) auto
  finally have m16: "uint (- 16 :: 'a word) = ?W - 16" .
  from big have lo: "?W - 16 < uint sz"
    unfolding word_less_def m16 .
  have hi: "uint sz < ?W" by (rule uint_lt2p)
  have n8: "\<not> sz \<le> 8"
    unfolding word_le_def u8 using lo W by simp
  have "sz + 8 + 7 = sz + 15" by simp
  then have "uint (sz + 8 + 7) = (uint sz + 15) mod ?W"
    by (simp only: uint_word_ariths take_bit_eq_mod u15)
  also have "\<dots> = (uint sz + 15 - ?W) mod ?W"
    by simp
  also have "\<dots> = uint sz + 15 - ?W"
    by (intro mod_pos_pos_trivial) (use lo hi W15 in linarith)+
  finally have a: "uint (sz + 8 + 7) = uint sz + 15 - ?W" .
  have d: "uint ((sz + 8 + 7) div 8) = (uint sz + 15 - ?W) div 8"
    by (simp only: uint_div a u8)
  have d01: "0 \<le> (uint sz + 15 - ?W) div 8" "(uint sz + 15 - ?W) div 8 \<le> 1"
    using lo hi by linarith+
  have "uint (8 * ((sz + 8 + 7) div 8)) = (8 * ((uint sz + 15 - ?W) div 8)) mod ?W"
    by (simp only: uint_word_ariths take_bit_eq_mod u8 d)
  also have "\<dots> = 8 * ((uint sz + 15 - ?W) div 8)"
    by (intro mod_pos_pos_trivial) (use d01 W in linarith)+
  finally have r: "uint (adjusted_size sz) = 8 * ((uint sz + 15 - ?W) div 8)"
    using n8 by (simp add: adjusted_size_def)
  then have "uint (adjusted_size sz) \<le> 8"
    using d01 by linarith
  then show ?thesis
    unfolding word_less_def word_le_def u8 using lo W by linarith
qed


lemmas evs = mm_malloc_def mm_free_def mm_init_def grow_heap_def coalesce_def put_def fit_def
  fit_fwd.simps fit_wrap.simps fits_def mem_sbrk_def CHUNKSIZE_def NULL_def
  GET_SIZE_def GET_ALLOC_def HEAD_def FOOT_def NEXT_def PREV_def HF_def
  READ_WRITE READ_zero fresh_def Let_def

lemmas ev = evs adjusted_size_def

definition wrap0 :: state where
  "wrap0 = \<lparr>mem = (WRITE (WRITE (WRITE (WRITE (WRITE (WRITE (WRITE (WRITE (WRITE (WRITE (WRITE (\<lambda>_. 0) 4096 0) 4100 9) 4104 9) 4108 1) 4108 4096) 8200 4096) 8204 1) 4108 1) 4104 1) 4108 4096) 8200 4096), heapL = 4104, trav = 4112, mem_brk = 8208, mem_max_addr = 1048576\<rparr>"

lemma wrap0_malloc:
  "sz \<noteq> 0 \<Longrightarrow> adjusted_size sz = 0 \<Longrightarrow>
   mm_malloc (fresh (\<lambda>_. 0) 4096 1048576) sz = Some (wrap0, 4112)"
  by (simp add: wrap0_def evs)

lemma wrap0_size: "GET_SIZE (mem wrap0) (HEAD 4112) = 4096"
  by (simp add: wrap0_def evs)

definition wrap8 :: state where
  "wrap8 = \<lparr>mem = (WRITE (WRITE (WRITE (WRITE (WRITE (WRITE (WRITE (WRITE (WRITE (WRITE (WRITE (\<lambda>_. 0) 4096 0) 4100 9) 4104 9) 4108 1) 4108 4096) 8200 4096) 8204 1) 4108 9) 4112 9) 4116 4088) 8200 4088), heapL = 4104, trav = 4112, mem_brk = 8208, mem_max_addr = 1048576\<rparr>"

lemma wrap8_malloc:
  "sz \<noteq> 0 \<Longrightarrow> adjusted_size sz = 8 \<Longrightarrow>
   mm_malloc (fresh (\<lambda>_. 0) 4096 1048576) sz = Some (wrap8, 4112)"
  by (simp add: wrap8_def evs)

lemma wrap8_size: "GET_SIZE (mem wrap8) (HEAD 4112) = 8"
  by (simp add: wrap8_def evs)


lemma adjusted_size_wrap_cases:
  fixes sz :: size_t
  assumes "- 16 < sz"
  shows "adjusted_size sz = 0 \<or> adjusted_size sz = 8"
proof -
  from adjusted_size_wrap[OF _ assms] have "uint (adjusted_size sz) \<le> 8"
    by (simp add: word_le_def)
  moreover have "8 dvd uint (adjusted_size sz)" by (rule adjusted_size_dvd)
  moreover have "0 \<le> uint (adjusted_size sz)" by simp
  ultimately have "uint (adjusted_size sz) = 0 \<or> uint (adjusted_size sz) = 8"
    by presburger
  then show ?thesis
    by (simp add: word_uint_eq_iff)
qed

lemma wrap_malloc:
  fixes sz :: size_t
  assumes "- 16 < sz"
  shows "\<exists>s p. mm_malloc (fresh (\<lambda>_. 0) 4096 1048576) sz = Some (s, p) \<and> p \<noteq> NULL
      \<and> uint (GET_SIZE (mem s) (HEAD p)) - 8 < uint sz"
proof -
  from assms have nz: "sz \<noteq> 0" by auto
  have m: "uint (- 16 :: size_t) = 2 ^ 64 - 16" by simp
  from assms have big: "2 ^ 64 - 16 < uint sz"
    unfolding word_less_def m .
  from adjusted_size_wrap_cases[OF assms] show ?thesis
  proof
    assume "adjusted_size sz = 0"
    from wrap0_malloc[OF nz this] wrap0_size big show ?thesis
      by (simp add: NULL_def)
  next
    assume "adjusted_size sz = 8"
    from wrap8_malloc[OF nz this] wrap8_size big show ?thesis
      by (simp add: NULL_def)
  qed
qed

section \<open>Concrete heaps\<close>

definition heap0 :: state where
  "heap0 = \<lparr>mem = (WRITE (WRITE (WRITE (WRITE (WRITE (WRITE (WRITE (\<lambda>_. 0) 4096 0) 4100 9) 4104 9) 4108 1) 4108 4096) 8200 4096) 8204 1), heapL = 4104, trav = 4104, mem_brk = 8208, mem_max_addr = 1048576\<rparr>"

lemma heap0_init: "mm_init (fresh (\<lambda>_. 0) 4096 1048576) = (heap0, 0)"
  by (simp add: heap0_def ev)

definition c2_1 :: state where
  "c2_1 = \<lparr>mem = (WRITE (WRITE (WRITE (WRITE (WRITE (WRITE (WRITE (WRITE (WRITE (WRITE (WRITE (\<lambda>_. 0) 4096 0) 4100 9) 4104 9) 4108 1) 4108 4096) 8200 4096) 8204 1) 4108 17) 4120 17) 4124 4080) 8200 4080), heapL = 4104, trav = 4112, mem_brk = 8208, mem_max_addr = 1048576\<rparr>"

lemma c2_1_step: "mm_malloc heap0 8 = Some (c2_1, 4112)"
  by (simp add: heap0_def c2_1_def ev)

definition c2_2 :: state where
  "c2_2 = \<lparr>mem = (WRITE (WRITE (WRITE (WRITE (WRITE (WRITE (WRITE (WRITE (WRITE (WRITE (WRITE (WRITE (WRITE (WRITE (WRITE (\<lambda>_. 0) 4096 0) 4100 9) 4104 9) 4108 1) 4108 4096) 8200 4096) 8204 1) 4108 17) 4120 17) 4124 4080) 8200 4080) 4124 17) 4136 17) 4140 4064) 8200 4064), heapL = 4104, trav = 4128, mem_brk = 8208, mem_max_addr = 1048576\<rparr>"

lemma c2_2_step: "mm_malloc c2_1 8 = Some (c2_2, 4128)"
  by (simp add: c2_1_def c2_2_def ev)

definition c2_3 :: state where
  "c2_3 = \<lparr>mem = (WRITE (WRITE (WRITE (WRITE (WRITE (WRITE (WRITE (WRITE (WRITE (WRITE (WRITE (WRITE (WRITE (WRITE (WRITE (WRITE (WRITE (\<lambda>_. 0) 4096 0) 4100 9) 4104 9) 4108 1) 4108 4096) 8200 4096) 8204 1) 4108 17) 4120 17) 4124 4080) 8200 4080) 4124 17) 4136 17) 4140 4064) 8200 4064) 4108 16) 4120 16), heapL = 4104, trav = 4128, mem_brk = 8208, mem_max_addr = 1048576\<rparr>"

lemma c2_3_step: "mm_free c2_2 4112 = c2_3"
  by (simp add: c2_2_def c2_3_def ev)

definition c2_4 :: state where
  "c2_4 = \<lparr>mem = (WRITE (WRITE (WRITE (WRITE (WRITE (WRITE (WRITE (WRITE (WRITE (WRITE (WRITE (WRITE (WRITE (WRITE (WRITE (WRITE (WRITE (WRITE (WRITE (\<lambda>_. 0) 4096 0) 4100 9) 4104 9) 4108 1) 4108 4096) 8200 4096) 8204 1) 4108 17) 4120 17) 4124 4080) 8200 4080) 4124 17) 4136 17) 4140 4064) 8200 4064) 4108 16) 4120 16) 4140 4065) 8200 4065), heapL = 4104, trav = 4144, mem_brk = 8208, mem_max_addr = 1048576\<rparr>"

lemma c2_4_step: "mm_malloc c2_3 4056 = Some (c2_4, 4144)"
  by (simp add: c2_3_def c2_4_def ev)

definition c2_5 :: state where
  "c2_5 = \<lparr>mem = (WRITE (WRITE (WRITE (WRITE (WRITE (WRITE (WRITE (WRITE (WRITE (WRITE (WRITE (WRITE (WRITE (WRITE (WRITE (WRITE (WRITE (WRITE (WRITE (WRITE (WRITE (WRITE (WRITE (\<lambda>_. 0) 4096 0) 4100 9) 4104 9) 4108 1) 4108 4096) 8200 4096) 8204 1) 4108 17) 4120 17) 4124 4080) 8200 4080) 4124 17) 4136 17) 4140 4064) 8200 4064) 4108 16) 4120 16) 4140 4065) 8200 4065) 4108 1) 4104 1) 4108 16) 4120 16), heapL = 4104, trav = 4112, mem_brk = 8208, mem_max_addr = 1048576\<rparr>"

lemma c2_5_step: "mm_malloc c2_4 18446744073709551601 = Some (c2_5, 4112)"
  by (simp add: c2_4_def c2_5_def ev)

definition c2_6 :: state where
  "c2_6 = \<lparr>mem = (WRITE (WRITE (WRITE (WRITE (WRITE (WRITE (WRITE (WRITE (WRITE (WRITE (WRITE (WRITE (WRITE (WRITE (WRITE (WRITE (WRITE (WRITE (WRITE (WRITE (WRITE (WRITE (WRITE (WRITE (WRITE (\<lambda>_. 0) 4096 0) 4100 9) 4104 9) 4108 1) 4108 4096) 8200 4096) 8204 1) 4108 17) 4120 17) 4124 4080) 8200 4080) 4124 17) 4136 17) 4140 4064) 8200 4064) 4108 16) 4120 16) 4140 4065) 8200 4065) 4108 1) 4104 1) 4108 16) 4120 16) 4140 4064) 8200 4064), heapL = 4104, trav = 4112, mem_brk = 8208, mem_max_addr = 1048576\<rparr>"

lemma c2_6_step: "mm_free c2_5 4144 = c2_6"
  by (simp add: c2_5_def c2_6_def ev)

definition c2_7 :: state where
  "c2_7 = \<lparr>mem = (WRITE (WRITE (WRITE (WRITE (WRITE (WRITE (WRITE (WRITE (WRITE (WRITE (WRITE (WRITE (WRITE (WRITE (WRITE (WRITE (WRITE (WRITE (WRITE (WRITE (WRITE (WRITE (WRITE (WRITE (WRITE (WRITE (WRITE (WRITE (WRITE (\<lambda>_. 0) 4096 0) 4100 9) 4104 9) 4108 1) 4108 4096) 8200 4096) 8204 1) 4108 17) 4120 17) 4124 4080) 8200 4080) 4124 17) 4136 17) 4140 4064) 8200 4064) 4108 16) 4120 16) 4140 4065) 8200 4065) 4108 1) 4104 1) 4108 16) 4120 16) 4140 4064) 8200 4064) 4108 16) 4120 16) 4120 32) 4108 32), heapL = 4104, trav = 4112, mem_brk = 8208, mem_max_addr = 1048576\<rparr>"

lemma c2_7_step: "mm_free c2_6 4112 = c2_7"
  by (simp add: c2_6_def c2_7_def ev)

lemma c2_run:
  "run [Malloc 8, Malloc 8, Free 4112, Malloc 4056, Malloc 18446744073709551601, Free 4144, Free 4112] (heap0, []) =
     Inr (c2_7, [4128])"
  by (simp add: c2_1_step c2_2_step c2_3_step c2_4_step c2_5_step c2_6_step c2_7_step NULL_def)

definition c6_1 :: state where
  "c6_1 = \<lparr>mem = (WRITE (WRITE (WRITE (WRITE (WRITE (WRITE (WRITE (WRITE (WRITE (WRITE (WRITE (\<lambda>_. 0) 4096 0) 4100 9) 4104 9) 4108 1) 4108 4096) 8200 4096) 8204 1) 4108 1) 4104 1) 4108 4096) 8200 4096), heapL = 4104, trav = 4112, mem_brk = 8208, mem_max_addr = 1048576\<rparr>"

lemma c6_1_step: "mm_malloc heap0 18446744073709551601 = Some (c6_1, 4112)"
  by (simp add: heap0_def c6_1_def ev)

definition c6_2 :: state where
  "c6_2 = \<lparr>mem = (WRITE (WRITE (WRITE (WRITE (WRITE (WRITE (WRITE (WRITE (WRITE (WRITE (WRITE (WRITE (WRITE (WRITE (WRITE (\<lambda>_. 0) 4096 0) 4100 9) 4104 9) 4108 1) 4108 4096) 8200 4096) 8204 1) 4108 1) 4104 1) 4108 4096) 8200 4096) 4108 4096) 8200 4096) 8200 8192) 4108 8192), heapL = 4104, trav = 4112, mem_brk = 8208, mem_max_addr = 1048576\<rparr>"

lemma c6_2_step: "mm_free c6_1 4112 = c6_2"
  by (simp add: c6_1_def c6_2_def ev)

definition c6_3 :: state where
  "c6_3 = \<lparr>mem = (WRITE (WRITE (WRITE (WRITE (WRITE (WRITE (WRITE (WRITE (WRITE (WRITE (WRITE (WRITE (WRITE (WRITE (WRITE (WRITE (WRITE (WRITE (WRITE (\<lambda>_. 0) 4096 0) 4100 9) 4104 9) 4108 1) 4108 4096) 8200 4096) 8204 1) 4108 1) 4104 1) 4108 4096) 8200 4096) 4108 4096) 8200 4096) 8200 8192) 4108 8192) 4108 5009) 9112 5009) 9116 3184) 12296 3184), heapL = 4104, trav = 4112, mem_brk = 8208, mem_max_addr = 1048576\<rparr>"

lemma c6_3_step: "mm_malloc c6_2 5000 = Some (c6_3, 4112)"
  by (simp add: c6_2_def c6_3_def ev)

definition c6_4 :: state where
  "c6_4 = \<lparr>mem = (WRITE (WRITE (WRITE (WRITE (WRITE (WRITE (WRITE (WRITE (WRITE (WRITE (WRITE (WRITE (WRITE (WRITE (WRITE (WRITE (WRITE (WRITE (WRITE (WRITE (WRITE (WRITE (WRITE (\<lambda>_. 0) 4096 0) 4100 9) 4104 9) 4108 1) 4108 4096) 8200 4096) 8204 1) 4108 1) 4104 1) 4108 4096) 8200 4096) 4108 4096) 8200 4096) 8200 8192) 4108 8192) 4108 5009) 9112 5009) 9116 3184) 12296 3184) 9116 17) 9128 17) 9132 3168) 12296 3168), heapL = 4104, trav = 9120, mem_brk = 8208, mem_max_addr = 1048576\<rparr>"

lemma c6_4_step: "mm_malloc c6_3 8 = Some (c6_4, 9120)"
  by (simp add: c6_3_def c6_4_def ev)

lemma c6_run:
  "run [Malloc 18446744073709551601, Free 4112, Malloc 5000, Malloc 8] (heap0, []) =
     Inr (c6_4, [9120, 4112])"
  by (simp add: c6_1_step c6_2_step c6_3_step c6_4_step NULL_def)

definition c8_1 :: state where
  "c8_1 = \<lparr>mem = (WRITE (WRITE (WRITE (WRITE (WRITE (WRITE (WRITE (WRITE (WRITE (WRITE (WRITE (WRITE (WRITE (WRITE (WRITE (WRITE (\<lambda>_. 0) 4096 0) 4100 9) 4104 9) 4108 1) 4108 4096) 8200 4096) 8204 1) 8204 5008) 13208 5008) 13212 1) 13208 9104) 4108 9104) 4108 5009) 9112 5009) 9116 4096) 13208 4096), heapL = 4104, trav = 4104, mem_brk = 13216, mem_max_addr = 1048576\<rparr>"

lemma c8_1_step: "mm_malloc heap0 5000 = Some (c8_1, 4112)"
  by (simp add: heap0_def c8_1_def ev)

lemma c8_run:
  "run [Malloc 5000] (heap0, []) =
     Inr (c8_1, [4112])"
  by (simp add: c8_1_step NULL_def)

definition c9_1 :: state where
  "c9_1 = \<lparr>mem = (WRITE (WRITE (WRITE (WRITE (WRITE (WRITE (WRITE (WRITE (WRITE (WRITE (WRITE (\<lambda>_. 0) 4096 0) 4100 9) 4104 9) 4108 1) 4108 4096) 8200 4096) 8204 1) 4108 113) 4216 113) 4220 3984) 8200 3984), heapL = 4104, trav = 4112, mem_brk = 8208, mem_max_addr = 1048576\<rparr>"

lemma c9_1_step: "mm_malloc heap0 100 = Some (c9_1, 4112)"
  by (simp add: heap0_def c9_1_def ev)

definition c9_2 :: state where
  "c9_2 = \<lparr>mem = (WRITE (WRITE (WRITE (WRITE (WRITE (WRITE (WRITE (WRITE (WRITE (WRITE (WRITE (WRITE (WRITE (WRITE (WRITE (\<lambda>_. 0) 4096 0) 4100 9) 4104 9) 4108 1) 4108 4096) 8200 4096) 8204 1) 4108 113) 4216 113) 4220 3984) 8200 3984) 4108 112) 4216 112) 4108 4096) 8200 4096), heapL = 4104, trav = 4112, mem_brk = 8208, mem_max_addr = 1048576\<rparr>"

lemma c9_2_step: "mm_free c9_1 4112 = c9_2"
  by (simp add: c9_1_def c9_2_def ev)

lemma c9_run:
  "run [Malloc 100, Free 4112] (heap0, []) =
     Inr (c9_2, [])"
  by (simp add: c9_1_step c9_2_step NULL_def)

definition tiny0 :: state where
  "tiny0 = \<lparr>mem = (WRITE (WRITE (WRITE (WRITE (WRITE (WRITE (WRITE (\<lambda>_. 0) 4096 0) 4100 9) 4104 9) 4108 1) 4108 4096) 8200 4096) 8204 1), heapL = 4104, trav = 4104, mem_brk = 8208, mem_max_addr = 8208\<rparr>"

lemma tiny0_init: "mm_init (fresh (\<lambda>_. 0) 4096 8208) = (tiny0, 0)"
  by (simp add: tiny0_def ev)

definition c7_1 :: state where
  "c7_1 = \<lparr>mem = (WRITE (WRITE (WRITE (WRITE (WRITE (WRITE (WRITE (WRITE (WRITE (WRITE (WRITE (\<lambda>_. 0) 4096 0) 4100 9) 4104 9) 4108 1) 4108 4096) 8200 4096) 8204 1) 4108 113) 4216 113) 4220 3984) 8200 3984), heapL = 4104, trav = 4112, mem_brk = 8208, mem_max_addr = 8208\<rparr>"

lemma c7_1_step: "mm_malloc tiny0 100 = Some (c7_1, 4112)"
  by (simp add: tiny0_def c7_1_def ev)

definition c7_2 :: state where
  "c7_2 = \<lparr>mem = (WRITE (WRITE (WRITE (WRITE (WRITE (WRITE (WRITE (WRITE (WRITE (WRITE (WRITE (\<lambda>_. 0) 4096 0) 4100 9) 4104 9) 4108 1) 4108 4096) 8200 4096) 8204 1) 4108 113) 4216 113) 4220 3984) 8200 3984), heapL = 4104, trav = 4112, mem_brk = 8208, mem_max_addr = 8208\<rparr>"

lemma c7_2_step: "mm_malloc c7_1 5000 = Some (c7_2, 0)"
  by (simp add: c7_1_def c7_2_def ev)

lemma c7_run:
  "run [Malloc 100, Malloc 5000] (tiny0, []) =
     Inr (c7_2, [4112])"
  by (simp add: c7_1_step c7_2_step NULL_def)

definition c1_1 :: state where
  "c1_1 = \<lparr>mem = (WRITE (WRITE (WRITE (WRITE (WRITE (WRITE (WRITE (WRITE (WRITE (WRITE (WRITE (\<lambda>_. 0) 4096 0) 4100 9) 4104 9) 4108 1) 4108 4096) 8200 4096) 8204 1) 4108 113) 4216 113) 4220 3984) 8200 3984), heapL = 4104, trav = 4112, mem_brk = 8208, mem_max_addr = 1048576\<rparr>"

lemma c1_1_step: "mm_malloc heap0 100 = Some (c1_1, 4112)"
  by (simp add: heap0_def c1_1_def ev)

definition c1_2 :: state where
  "c1_2 = \<lparr>mem = (WRITE (WRITE (WRITE (WRITE (WRITE (WRITE (WRITE (WRITE (WRITE (WRITE (WRITE (WRITE (WRITE (WRITE (WRITE (\<lambda>_. 0) 4096 0) 4100 9) 4104 9) 4108 1) 4108 4096) 8200 4096) 8204 1) 4108 113) 4216 113) 4220 3984) 8200 3984) 4220 209) 4424 209) 4428 3776) 8200 3776), heapL = 4104, trav = 4224, mem_brk = 8208, mem_max_addr = 1048576\<rparr>"

lemma c1_2_step: "mm_malloc c1_1 200 = Some (c1_2, 4224)"
  by (simp add: c1_1_def c1_2_def ev)

lemma c1_run:
  "run [Malloc 100, Malloc 200] (heap0, []) =
     Inr (c1_2, [4224, 4112])"
  by (simp add: c1_1_step c1_2_step NULL_def)

section \<open>Reallocation\<close>

text \<open>
  The usable payload of a block as the specification words it: its size without the
  header and footer words.
\<close>

definition usable_size :: "memory \<Rightarrow> addr \<Rightarrow> int" where
  "usable_size m ptr = uint (GET_SIZE m (HEAD ptr)) - DWORD"

lemma copy_len_uint:
  "uint (copy_len m ptr sz) = min (uint sz) (uint (GET_SIZE m (HEAD ptr)))"
proof -
  have "uint (ucast (GET_SIZE m (HEAD ptr)) :: size_t) = uint (GET_SIZE m (HEAD ptr))"
    by (simp add: uint_up_ucast is_up)
  then show ?thesis
    by (simp add: copy_len_def Let_def word_less_def min_def)
qed

text \<open>
  C1 (amended). For every call \<open>mm_realloc s ptr sz\<close> with \<open>ptr \<noteq> NULL\<close>,
  \<open>sz > 0\<close> and a successful inner allocation, the number of bytes copied from the old
  block to the new one is the minimum of \<open>sz\<close> and the old block's size as its header
  records it (header and footer included): exactly these bytes of the new block are
  overwritten with the bytes that follow \<open>ptr\<close>, every other byte is left as it was,
  and then the old block is freed.
\<close>

theorem realloc_copies:
  assumes "ptr \<noteq> NULL" and "sz \<noteq> 0" and "mm_malloc s sz = Some (s1, newptr)"
    and "newptr \<noteq> NULL"
  shows "\<exists>s2. mm_realloc s ptr sz = Some (mm_free s2 ptr, newptr)
      \<and> s2 = s1\<lparr>mem := memcpy (mem s1) newptr ptr (copy_len (mem s1) ptr sz)\<rparr>
      \<and> uint (copy_len (mem s1) ptr sz) = min (uint sz) (uint (GET_SIZE (mem s1) (HEAD ptr)))
      \<and> (\<forall>i. 0 \<le> i \<and> i < min (uint sz) (uint (GET_SIZE (mem s1) (HEAD ptr)))
             \<longrightarrow> mem s2 (newptr + i) = mem s1 (ptr + i))
      \<and> (\<forall>a. a < newptr \<or> newptr + min (uint sz) (uint (GET_SIZE (mem s1) (HEAD ptr))) \<le> a
             \<longrightarrow> mem s2 a = mem s1 a)"
  using assms
  by (auto simp add: mm_realloc_def NULL_def Let_def memcpy_def copy_len_uint)

text \<open>
  The claim as stated, with the usable payload size in place of the block size, fails:
  after \<open>allocate(100)\<close> the block has 112 bytes, 104 of them usable, and
  \<open>reallocate(p, 200)\<close> copies 112 bytes.
\<close>

theorem realloc_copy_counterexample:
  "mm_init (fresh (\<lambda>_. 0) 4096 1048576) = (heap0, 0)
   \<and> mm_malloc heap0 100 = Some (c1_1, 4112)
   \<and> mm_malloc c1_1 200 = Some (c1_2, 4224)
   \<and> uint (copy_len (mem c1_2) 4112 200) \<noteq> min (uint (200 :: size_t)) (usable_size (mem c1_2) 4112)"
proof -
  have "uint (GET_SIZE (mem c1_2) (HEAD 4112)) = 112"
    by (simp add: c1_2_def ev)
  then show ?thesis
    using heap0_init c1_1_step c1_2_step
    by (simp add: copy_len_uint usable_size_def)
qed


text \<open>
  The shrinking example of the claim: a block of 100 bytes filled with a known pattern
  is reallocated to 40 bytes, and the first 40 bytes of the new block are the first 40
  bytes of the pattern.
\<close>

definition fill :: "memory \<Rightarrow> addr \<Rightarrow> int \<Rightarrow> (int \<Rightarrow> byte) \<Rightarrow> memory" where
  "fill m p n pat = (\<lambda>a. if p \<le> a \<and> a < p + n then pat (a - p) else m a)"

definition pattern :: "int \<Rightarrow> byte" where
  "pattern i = word_of_int (i + 65)"

definition c1_filled :: state where
  "c1_filled = c1_1\<lparr>mem := fill (mem c1_1) 4112 100 pattern\<rparr>"

definition c1_new :: state where
  "c1_new = \<lparr>mem = WRITE (WRITE (WRITE (WRITE (fill (mem c1_1) 4112 100 pattern) 4220 49) 4264 49)
               4268 3936) 8200 3936,
             heapL = 4104, trav = 4224, mem_brk = 8208, mem_max_addr = 1048576\<rparr>"

lemma READ_fill: "a + 4 \<le> p \<or> p + n \<le> a \<Longrightarrow> READ (fill m p n pat) a = READ m a"
  by (auto simp add: READ_def fill_def)

lemma READ_memcpy:
  "a + 4 \<le> dst \<or> dst + uint n \<le> a \<Longrightarrow> READ (memcpy m dst src n) a = READ m a"
  by (auto simp add: READ_def memcpy_def)

lemma c1_new_step: "mm_malloc c1_filled 40 = Some (c1_new, 4224)"
  by (simp add: c1_filled_def c1_new_def c1_1_def ev READ_fill)

theorem realloc_copies_witness:
  "(4112 :: addr) \<noteq> NULL \<and> (40 :: size_t) \<noteq> 0 \<and> mm_malloc c1_filled 40 = Some (c1_new, 4224)
   \<and> (4224 :: addr) \<noteq> NULL
   \<and> (\<exists>s'. mm_realloc c1_filled 4112 40 = Some (s', 4224)
         \<and> map (mem s') (map (\<lambda>i. 4224 + i) [0..39]) = map pattern [0..39])"
proof -
  have h: "(4112 :: addr) \<noteq> NULL" "(40 :: size_t) \<noteq> 0" "(4224 :: addr) \<noteq> NULL"
    by (simp_all add: NULL_def)
  let ?s2 = "c1_new\<lparr>mem := memcpy (mem c1_new) 4224 4112 (copy_len (mem c1_new) 4112 40)\<rparr>"
  from realloc_copies[OF h(1,2) c1_new_step h(3)]
  have r: "mm_realloc c1_filled 4112 40 = Some (mm_free ?s2 4112, 4224)"
    by simp
  have c: "copy_len (mem c1_new) 4112 40 = 40"
    by (simp add: copy_len_def c1_new_def c1_1_def ev READ_fill)
  have f: "mem (mm_free ?s2 4112) =
      WRITE (WRITE (memcpy (mem c1_new) 4224 4112 40) 4108 112) 4216 112"
    unfolding c by (simp add: c1_new_def c1_1_def ev READ_fill READ_memcpy)
  have "map (mem (mm_free ?s2 4112)) (map (\<lambda>i. 4224 + i) [0..39]) = map pattern [0..39]"
    unfolding f
    by (simp add: upto_rec_numeral WRITE_outside memcpy_def c1_new_def fill_def)
  with r h c1_new_step show ?thesis by blast
qed

section \<open>Conservation of the heap size\<close>

lemma run_from_init:
  assumes st: "0 \<le> start" and room: "start + 4112 \<le> limit" and bound: "limit - start < 2 ^ 32"
    and nw: "list_all no_wrap cs"
  shows "\<exists>s0. mm_init (fresh m start limit) = (s0, 0)
      \<and> (run cs (s0, []) = Inl InvalidFree
         \<or> (\<exists>s live F. run cs (s0, []) = Inr (s, live) \<and> heap_inv s F \<and> heapL s = start + 8
               \<and> set live \<subseteq> set (allocd (heapL s) F) - {heapL s}))"
proof -
  let ?f = "fresh m start limit"
  have f: "mem_brk ?f = start" "mem_max_addr ?f = limit"
    by (simp_all add: fresh_def)
  from mm_init_inv[of ?f] st room bound
  obtain s0 where i: "mm_init ?f = (s0, 0)" and inv: "heap_inv s0 [(8, True), (4096, False)]"
    and h: "heapL s0 = start + 8"
    by (auto simp: f)
  from inv have t: "tracked s0 []"
    by (auto simp: tracked_def)
  note r = run_tracked[OF t nw]
  show ?thesis
  proof (cases "run cs (s0, [])")
    case (Inl e)
    with r have "e = InvalidFree" by (cases e) auto
    with Inl i show ?thesis by simp
  next
    case (Inr c)
    obtain s live where c: "c = (s, live)" by (cases c)
    with r Inr have "tracked s live" "heapL s = heapL s0" by auto
    with Inr c i h show ?thesis
      by (auto simp: tracked_def)
  qed
qed


text \<open>
  C9 (amended). After every sequence of allocate calls whose requested sizes are at most
  \<open>SIZE_MAX - 15\<close> and of free calls on live pointers, begun after a successful
  \<open>mm_init\<close> on a provider that grants less than 4 GiB, a forward scan from the first
  real block reaches the end sentinel, and the sizes of the blocks it meets add up to
  the bytes granted by the provider minus the 16 bytes of padding, start sentinel and
  end sentinel header. A sequence that frees a pointer which is not live is not a
  sequence of the claim (\<open>InvalidFree\<close>); no sequence makes the allocator run forever.
\<close>

theorem conservation:
  assumes "0 \<le> start" and "start + 4112 \<le> limit" and "limit - start < 2 ^ 32"
    and "list_all no_wrap cs"
  shows "case run cs (fst (mm_init (fresh m start limit)), []) of
           Inl e \<Rightarrow> e = InvalidFree
         | Inr (s, live) \<Rightarrow>
             (\<exists>bs. heap_blocks s = Some bs \<and> total bs = mem_brk s - start - 16)"
proof -
  from run_from_init[OF assms, of m]
  obtain s0 where i: "mm_init (fresh m start limit) = (s0, 0)"
    and r: "run cs (s0, []) = Inl InvalidFree
         \<or> (\<exists>s live F. run cs (s0, []) = Inr (s, live) \<and> heap_inv s F \<and> heapL s = start + 8
               \<and> set live \<subseteq> set (allocd (heapL s) F) - {heapL s})"
    by blast
  from r show ?thesis
  proof
    assume "run cs (s0, []) = Inl InvalidFree"
    with i show ?thesis by simp
  next
    assume "\<exists>s live F. run cs (s0, []) = Inr (s, live) \<and> heap_inv s F \<and> heapL s = start + 8
               \<and> set live \<subseteq> set (allocd (heapL s) F) - {heapL s}"
    then obtain s live F where run: "run cs (s0, []) = Inr (s, live)" and inv: "heap_inv s F"
      and h: "heapL s = start + 8"
      by blast
    from heap_inv_blocks[OF inv] obtain bs where F: "F = (8, True) # bs" by blast
    from inv have "mem_brk s = heapL s + total F" by (simp add: heap_inv_def)
    then have "total bs = mem_brk s - start - 16"
      by (simp add: F h)
    with heap_blocks_inv[OF inv] F run i show ?thesis
      by simp
  qed
qed

theorem conservation_witness:
  "(0 :: int) \<le> 4096 \<and> (4096 :: int) + 4112 \<le> 1048576 \<and> (1048576 :: int) - 4096 < 2 ^ 32
   \<and> list_all no_wrap [Malloc 100, Free 4112]
   \<and> run [Malloc 100, Free 4112] (fst (mm_init (fresh (\<lambda>_. 0) 4096 1048576)), []) = Inr (c9_2, [])
   \<and> (\<exists>bs. heap_blocks c9_2 = Some bs \<and> total bs = mem_brk c9_2 - 4096 - 16)"
proof -
  have h: "(0 :: int) \<le> 4096" "(4096 :: int) + 4112 \<le> 1048576" "(1048576 :: int) - 4096 < 2 ^ 32"
    "list_all no_wrap [Malloc 100, Free 4112]"
    by simp_all
  have r: "run [Malloc 100, Free 4112] (fst (mm_init (fresh (\<lambda>_. 0) 4096 1048576)), []) = Inr (c9_2, [])"
    by (simp only: heap0_init fst_conv c9_run)
  from conservation[OF h, of "\<lambda>_. 0"] r
  have "\<exists>bs. heap_blocks c9_2 = Some bs \<and> total bs = mem_brk c9_2 - 4096 - 16"
    by simp
  with h r show ?thesis by blast
qed

text \<open>
  The claim as stated counts the whole of what the provider granted: right after
  \<open>mm_init\<close> the provider has granted 4112 bytes and the one block between the
  sentinels has 4096.
\<close>

theorem conservation_counterexample:
  "mm_init (fresh (\<lambda>_. 0) 4096 1048576) = (heap0, 0)
   \<and> heap_blocks heap0 = Some [(4096, False)]
   \<and> total [(4096, False)] \<noteq> mem_brk heap0 - 4096"
proof -
  have "heap_blocks heap0 = Some [(4096, False)]"
    by (simp add: heap_blocks_def scan.simps heap0_def ev)
  then show ?thesis
    using heap0_init by (simp add: heap0_def)
qed

section \<open>Fit search, placement and failing reallocation\<close>

text \<open>
  C3. For every adjusted request size the fit search returns the first free block of
  at least that size found from the cursor to the end sentinel; failing that, the first
  one among the real blocks before the original cursor position; failing that, \<open>NULL\<close>,
  which happens exactly when no block at all is free and large enough. The cursor ends
  on the block found, or where it was. \<open>before\<close> and \<open>after\<close> are the real blocks
  before the cursor and from the cursor on; initially the cursor is on the start
  sentinel.
\<close>

theorem fit_next_fit:
  assumes "layout (mem s) (heapL s) (before @ after)"
    and "trav s = heapL s + 8 + total before \<or> before = [] \<and> trav s = heapL s"
  shows "fit s adj =
      (case next_fit (heapL s + 8) before after (uint adj) of
         Some q \<Rightarrow> Some (s\<lparr>trav := q\<rparr>, q)
       | None \<Rightarrow> Some (s, NULL))
    \<and> ((next_fit (heapL s + 8) before after (uint adj) = None) =
        (\<not> (\<exists>b\<in>set (before @ after). \<not> snd b \<and> uint adj \<le> fst b)))"
  using assms by (rule fit_refines)

theorem fit_next_fit_witness:
  "layout (mem c2_4) (heapL c2_4) ([(16, False), (16, True)] @ [(4064, True)])
   \<and> (trav c2_4 = heapL c2_4 + 8 + total [(16, False), (16, True)]
        \<or> [(16, False), (16, True)] = [] \<and> trav c2_4 = heapL c2_4)
   \<and> fit c2_4 16 = Some (c2_4\<lparr>trav := 4112\<rparr>, 4112)
   \<and> fit c2_4 32 = Some (c2_4, NULL)"
proof -
  have l: "layout (mem c2_4) (heapL c2_4) ([(16, False), (16, True)] @ [(4064, True)])"
    by (simp add: layout_def blk_def tag_def c2_4_def READ_WRITE READ_zero)
  have t: "trav c2_4 = heapL c2_4 + 8 + total [(16, False), (16, True)]
        \<or> [(16, False), (16, True)] = [] \<and> trav c2_4 = heapL c2_4"
    by (simp add: c2_4_def)
  have h: "heapL c2_4 = 4104" by (simp add: c2_4_def)
  from fit_next_fit[OF l t, of 16] have "fit c2_4 16 = Some (c2_4\<lparr>trav := 4112\<rparr>, 4112)"
    by (simp add: next_fit_def h)
  moreover from fit_next_fit[OF l t, of 32] have "fit c2_4 32 = Some (c2_4, NULL)"
    by (simp add: next_fit_def h)
  ultimately show ?thesis
    using l t by blast
qed

text \<open>
  C5. Placing an adjusted request (a multiple of 8, at least 8 bytes, here \<open>uint adj\<close>)
  into a block of \<open>c\<close> bytes that it fits: if the leftover \<open>c - uint adj\<close> is at least 16
  bytes, the first \<open>uint adj\<close> bytes become an allocated block and the remainder a free
  block, each with its header and footer; otherwise the whole block is marked allocated.
  Nothing outside the block changes, nor does the payload of the placed block.
\<close>

theorem put_places:
  assumes "blk (mem s) p (c, al)"
    and "8 dvd uint adj" and "8 \<le> uint adj" and "uint adj \<le> c"
  shows "chain (mem (put s p adj)) p
           (if 16 \<le> c - uint adj then [(uint adj, True), (c - uint adj, False)] else [(c, True)])
     \<and> (\<forall>a. a < p - 4 \<or> p + c - 4 \<le> a \<longrightarrow> mem (put s p adj) a = mem s a)
     \<and> (\<forall>a. p \<le> a \<and> a < p + uint adj - 8 \<longrightarrow> mem (put s p adj) a = mem s a)
     \<and> heapL (put s p adj) = heapL s \<and> trav (put s p adj) = trav s
     \<and> mem_brk (put s p adj) = mem_brk s \<and> mem_max_addr (put s p adj) = mem_max_addr s"
  using assms by (rule put_effect)

theorem put_places_witness:
  "blk (mem heap0) 4112 (4096, False)
   \<and> 8 dvd uint (16 :: size_t) \<and> 8 \<le> uint (16 :: size_t) \<and> uint (16 :: size_t) \<le> 4096
   \<and> chain (mem (put heap0 4112 16)) 4112 [(16, True), (4080, False)]
   \<and> blk (mem c2_3) 4112 (16, False)
   \<and> chain (mem (put c2_3 4112 16)) 4112 [(16, True)]"
proof -
  have b: "blk (mem heap0) 4112 (4096, False)"
    by (simp add: blk_def tag_def heap0_def READ_WRITE READ_zero)
  have b': "blk (mem c2_3) 4112 (16, False)"
    by (simp add: blk_def tag_def c2_3_def READ_WRITE READ_zero)
  have k: "8 dvd uint (16 :: size_t)" "8 \<le> uint (16 :: size_t)" "uint (16 :: size_t) \<le> 4096"
    "uint (16 :: size_t) \<le> 16"
    by simp_all
  from put_places[OF b k(1,2,3)]
  have "chain (mem (put heap0 4112 16)) 4112 [(16, True), (4080, False)]"
    by simp
  moreover from put_places[OF b' k(1,2,4)]
  have "chain (mem (put c2_3 4112 16)) 4112 [(16, True)]"
    by simp
  ultimately show ?thesis
    using b b' k by blast
qed

text \<open>
  C7. On a well-formed heap, a call \<open>mm_realloc s ptr sz\<close> with \<open>ptr \<noteq> NULL\<close> and
  \<open>sz > 0\<close> whose inner allocation fails returns \<open>NULL\<close> and leaves the whole state as
  it was: the original block is still allocated and its contents are unchanged.
\<close>

theorem realloc_failure:
  assumes "heap_inv s F" and "ptr \<noteq> NULL" and "sz \<noteq> 0"
    and "mm_malloc s sz = Some (s1, NULL)"
  shows "mm_realloc s ptr sz = Some (s, NULL)"
  using assms by (rule realloc_fails)

theorem realloc_failure_witness:
  "heap_inv c7_1 [(8, True), (112, True), (3984, False)]
   \<and> (4112 :: addr) \<noteq> NULL \<and> (5000 :: size_t) \<noteq> 0
   \<and> mm_malloc c7_1 5000 = Some (c7_1, NULL)
   \<and> mm_realloc c7_1 4112 5000 = Some (c7_1, NULL)"
proof -
  have i: "heap_inv c7_1 [(8, True), (112, True), (3984, False)]"
    by (simp add: heap_inv_def laid_def good_def blk_def tag_def c7_1_def READ_WRITE READ_zero)
  have n: "(4112 :: addr) \<noteq> NULL" "(5000 :: size_t) \<noteq> 0"
    by (simp_all add: NULL_def)
  have "c7_2 = c7_1"
    by (simp add: c7_1_def c7_2_def)
  with c7_2_step have m: "mm_malloc c7_1 5000 = Some (c7_1, NULL)"
    by (simp add: NULL_def)
  from realloc_failure[OF i n m] i n m show ?thesis
    by blast
qed

section \<open>Growing on a miss and the wrap-around\<close>

lemma put_fields:
  "heapL (put s p adj) = heapL s" "trav (put s p adj) = trav s"
  "mem_brk (put s p adj) = mem_brk s" "mem_max_addr (put s p adj) = mem_max_addr s"
  by (simp_all add: put_def Let_def)

text \<open>
  C8 (amended). On a well-formed heap, when the fit search of an allocate call finds no
  block, the heap is grown by \<open>max (adjusted size) 4096\<close> bytes (\<open>grow_heap\<close> is called
  with a quarter of that number, its unit being the 4-byte word), the request is placed
  into the freshly grown block, which is the last block of the heap and has absorbed the
  free block before it if there was one, and \<open>NULL\<close> is returned, with the state
  unchanged, when the provider cannot grant that many bytes.
\<close>

theorem malloc_miss_grows:
  assumes "heap_inv s F" and "sz \<noteq> 0"
    and "fit s (adjusted_size sz) = Some (s1, NULL)"
  shows "s1 = s \<and>
    (if mem_brk s + max (uint (adjusted_size sz)) 4096 \<le> mem_max_addr s
     then \<exists>s2 xs N. grow_heap s (growsize (adjusted_size sz) div 4) = (s2, heapL s + total xs)
         \<and> mem_brk s2 = mem_brk s + max (uint (adjusted_size sz)) 4096
         \<and> heap_inv s2 (xs @ [(N, False)]) \<and> max (uint (adjusted_size sz)) 4096 \<le> N
         \<and> heapL s + total xs \<noteq> NULL
         \<and> mm_malloc s sz = Some (put s2 (heapL s + total xs) (adjusted_size sz), heapL s + total xs)
     else mm_malloc s sz = Some (s, NULL) \<and> grow_heap s (growsize (adjusted_size sz) div 4) = (s, NULL))"
  using assms by (rule malloc_miss)

lemma heap0_inv: "heap_inv heap0 [(8, True), (4096, False)]"
  by (simp add: heap_inv_def laid_def good_def blk_def tag_def heap0_def READ_WRITE READ_zero)

lemma heap0_miss: "fit heap0 (adjusted_size 5000) = Some (heap0, NULL)"
  by (simp add: heap0_def ev)

theorem malloc_miss_grows_witness:
  "heap_inv heap0 [(8, True), (4096, False)] \<and> (5000 :: size_t) \<noteq> 0
   \<and> fit heap0 (adjusted_size 5000) = Some (heap0, NULL)
   \<and> mm_malloc heap0 5000 = Some (c8_1, 4112)
   \<and> mem_brk c8_1 = mem_brk heap0 + 5008
   \<and> heap_inv tiny0 [(8, True), (4096, False)]
   \<and> fit tiny0 (adjusted_size 5000) = Some (tiny0, NULL)
   \<and> mm_malloc tiny0 5000 = Some (tiny0, NULL)"
proof -
  have n: "(5000 :: size_t) \<noteq> 0" by simp
  have a: "uint (adjusted_size (5000 :: size_t)) = 5008"
    by (simp add: adjusted_size_def)
  have ok: "mem_brk heap0 + max (uint (adjusted_size (5000 :: size_t))) 4096 \<le> mem_max_addr heap0"
    unfolding a by (simp add: heap0_def)
  from malloc_miss_grows[OF heap0_inv n heap0_miss] ok
  obtain s2 xs where b: "mem_brk s2 = mem_brk heap0 + max (uint (adjusted_size (5000 :: size_t))) 4096"
    and m: "mm_malloc heap0 5000 =
      Some (put s2 (heapL heap0 + total xs) (adjusted_size 5000), heapL heap0 + total xs)"
    by auto
  from m c8_1_step have "c8_1 = put s2 (heapL heap0 + total xs) (adjusted_size 5000)"
    by auto
  then have "mem_brk c8_1 = mem_brk (put s2 (heapL heap0 + total xs) (adjusted_size 5000))"
    by (rule arg_cong)
  then have "mem_brk c8_1 = mem_brk s2"
    by (simp only: put_fields)
  with b a have g: "mem_brk c8_1 = mem_brk heap0 + 5008"
    by simp
  have ti: "heap_inv tiny0 [(8, True), (4096, False)]"
    by (simp add: heap_inv_def laid_def good_def blk_def tag_def tiny0_def READ_WRITE READ_zero)
  have tm: "fit tiny0 (adjusted_size 5000) = Some (tiny0, NULL)"
    by (simp add: tiny0_def ev)
  have no: "\<not> mem_brk tiny0 + max (uint (adjusted_size (5000 :: size_t))) 4096 \<le> mem_max_addr tiny0"
    unfolding a by (simp add: tiny0_def)
  from malloc_miss_grows[OF ti n tm] no have "mm_malloc tiny0 5000 = Some (tiny0, NULL)"
    by simp
  with heap0_inv n heap0_miss c8_1_step g ti tm show ?thesis
    by blast
qed

text \<open>
  The claim as stated, growth by that many alignment units, fails whether the unit is
  the 8 bytes of the alignment or the 4-byte word that \<open>grow_heap\<close> counts in:
  \<open>allocate(5000)\<close> on the heap that \<open>mm_init\<close> leaves misses (the only free block has
  4096 bytes) and grows the heap by 5008 bytes, not by \<open>8 * 5008\<close> or \<open>4 * 5008\<close>.
\<close>

theorem malloc_miss_counterexample:
  "mm_init (fresh (\<lambda>_. 0) 4096 1048576) = (heap0, 0)
   \<and> fit heap0 (adjusted_size 5000) = Some (heap0, NULL)
   \<and> mm_malloc heap0 5000 = Some (c8_1, 4112)
   \<and> mem_brk c8_1 \<noteq> mem_brk heap0 + DWORD * max (uint (adjusted_size (5000 :: size_t))) (uint CHUNKSIZE)
   \<and> mem_brk c8_1 \<noteq> mem_brk heap0 + HFSIZE * max (uint (adjusted_size (5000 :: size_t))) (uint CHUNKSIZE)"
proof -
  have "uint (adjusted_size (5000 :: size_t)) = 5008"
    by (simp add: adjusted_size_def)
  then show ?thesis
    using heap0_init heap0_miss c8_1_step
    by (simp add: heap0_def c8_1_def CHUNKSIZE_val)
qed

text \<open>
  C10. Every requested size greater than \<open>SIZE_MAX - 15\<close> makes the adjusted size wrap
  around: it comes out smaller than the request (it is 0 or 8), and allocate on a fresh
  heap returns a pointer that is not \<open>NULL\<close> to a block whose usable capacity is
  smaller than the request.
\<close>

theorem adjusted_size_overflow:
  fixes sz :: size_t
  assumes "- 1 - 15 < sz"
  shows "adjusted_size sz < sz \<and> adjusted_size sz \<le> 8
     \<and> (\<exists>s p. mm_malloc (fresh (\<lambda>_. 0) 4096 1048576) sz = Some (s, p) \<and> p \<noteq> NULL
           \<and> usable_size (mem s) p < uint sz)"
proof -
  from assms have b: "- 16 < sz" by simp
  from adjusted_size_wrap[OF _ b] wrap_malloc[OF b] show ?thesis
    by (simp add: usable_size_def)
qed

theorem adjusted_size_overflow_witness:
  "(- 1 - 15 :: size_t) < - 1 \<and> adjusted_size (- 1 :: size_t) < - 1
   \<and> adjusted_size (- 1 :: size_t) = 8
   \<and> mm_malloc (fresh (\<lambda>_. 0) 4096 1048576) (- 1) = Some (wrap8, 4112)
   \<and> usable_size (mem wrap8) 4112 = 0"
proof -
  have h: "(- 1 - 15 :: size_t) < - 1" by simp
  have a: "adjusted_size (- 1 :: size_t) = 8"
    by (simp add: adjusted_size_def word_le_def unsigned_minus_1_eq_mask mask_eq_exp_minus_1)
  have n: "(- 1 :: size_t) \<noteq> 0" by simp
  note m = wrap8_malloc[OF n a]
  have u: "usable_size (mem wrap8) 4112 = 0"
    by (simp add: usable_size_def wrap8_size)
  from adjusted_size_overflow[OF h] a m u h show ?thesis
    by blast
qed

section \<open>Requests that wrap around\<close>

text \<open>
  C2 (the code at the failing input). The request \<open>SIZE_MAX - 14\<close> wraps to an adjusted
  size of 0, so \<open>put\<close> overwrites the footer of the block before the one it was given
  and leaves that block free while \<open>mm_malloc\<close> returns it. After the calls below, all
  of them allocations or frees of live pointers, the forward scan meets two consecutive
  free blocks.
\<close>

theorem overflow_adjacent_free:
  "mm_init (fresh (\<lambda>_. 0) 4096 1048576) = (heap0, 0)
   \<and> run [Malloc 8, Malloc 8, Free 4112, Malloc 4056, Malloc (- 15), Free 4144, Free 4112]
         (heap0, []) = Inr (c2_7, [4128])
   \<and> heap_blocks c2_7 = Some [(32, False), (4064, False)]
   \<and> no_adj_free [(32, False), (4064, False)] = False"
proof -
  have e: "(- 15 :: size_t) = 18446744073709551601" by simp
  have "heap_blocks c2_7 = Some [(32, False), (4064, False)]"
    by (simp add: heap_blocks_def scan.simps c2_7_def ev)
  moreover have "no_adj_free [(32, False), (4064, False)] = False"
    by simp
  ultimately show ?thesis
    unfolding e using heap0_init c2_run by (intro conjI)
qed

text \<open>
  C4 (the code at the failing input). The request \<open>SIZE_MAX\<close> wraps to an adjusted
  size of 8: \<open>mm_malloc\<close> on a fresh heap returns the pointer 4112 to a block of 8
  bytes, less than two alignment units.
\<close>

theorem overflow_small_block:
  "mm_malloc (fresh (\<lambda>_. 0) 4096 1048576) (- 1) = Some (wrap8, 4112)
   \<and> uint (GET_SIZE (mem wrap8) (HEAD 4112)) = 8"
proof -
  have "adjusted_size (- 1 :: size_t) = 8"
    by (simp add: adjusted_size_def word_le_def unsigned_minus_1_eq_mask mask_eq_exp_minus_1)
  from wrap8_malloc[OF _ this] wrap8_size show ?thesis
    by simp
qed

text \<open>
  C6 (the code at the failing input). After the request \<open>SIZE_MAX - 14\<close> and the free
  of the pointer it returned, the first block claims 8192 bytes of a heap of 4096; two
  further allocations leave the search cursor at 9120, beyond the end of the heap at
  8208.
\<close>

theorem overflow_cursor:
  "mm_init (fresh (\<lambda>_. 0) 4096 1048576) = (heap0, 0)
   \<and> run [Malloc (- 15), Free 4112, Malloc 5000, Malloc 8] (heap0, []) = Inr (c6_4, [9120, 4112])
   \<and> trav c6_4 = 9120 \<and> mem_brk c6_4 = 8208"
proof -
  have e: "(- 15 :: size_t) = 18446744073709551601" by simp
  have "trav c6_4 = 9120" "mem_brk c6_4 = 8208"
    by (simp_all add: c6_4_def)
  then show ?thesis
    unfolding e using heap0_init c6_run by (intro conjI)
qed

section \<open>Invariants for requests that do not wrap\<close>

lemma chain_dvd: "chain m p bs \<Longrightarrow> 8 dvd total bs"
  by (induction bs arbitrary: p) (auto simp: blk_def)

lemma good_tl: "good F \<Longrightarrow> no_adj_free (tl F) \<and> list_all (\<lambda>b. 16 \<le> fst b) (tl F)"
  by (cases F; cases "tl F") (auto simp: good_def)

text \<open>
  No adjacent free blocks, for requests that do not wrap. After every sequence of
  allocate calls whose requested sizes are at most \<open>SIZE_MAX - 15\<close> and of free calls
  on live pointers, begun after a successful \<open>mm_init\<close> on a provider that grants less
  than 4 GiB, the forward scan from the first real block reaches the end sentinel,
  never meets two consecutive free blocks, and meets no block of less than 16 bytes.
\<close>

theorem no_adjacent_free:
  assumes "0 \<le> start" and "start + 4112 \<le> limit" and "limit - start < 2 ^ 32"
    and "list_all no_wrap cs"
  shows "case run cs (fst (mm_init (fresh m start limit)), []) of
           Inl e \<Rightarrow> e = InvalidFree
         | Inr (s, live) \<Rightarrow>
             (\<exists>bs. heap_blocks s = Some bs \<and> no_adj_free bs \<and> list_all (\<lambda>b. 16 \<le> fst b) bs)"
proof -
  from run_from_init[OF assms, of m]
  obtain s0 where i: "mm_init (fresh m start limit) = (s0, 0)"
    and r: "run cs (s0, []) = Inl InvalidFree
         \<or> (\<exists>s live F. run cs (s0, []) = Inr (s, live) \<and> heap_inv s F \<and> heapL s = start + 8
               \<and> set live \<subseteq> set (allocd (heapL s) F) - {heapL s})"
    by blast
  from r show ?thesis
  proof
    assume "run cs (s0, []) = Inl InvalidFree"
    with i show ?thesis by simp
  next
    assume "\<exists>s live F. run cs (s0, []) = Inr (s, live) \<and> heap_inv s F \<and> heapL s = start + 8
               \<and> set live \<subseteq> set (allocd (heapL s) F) - {heapL s}"
    then obtain s live F where run: "run cs (s0, []) = Inr (s, live)" and inv: "heap_inv s F"
      by blast
    from inv have "good F" by (simp add: heap_inv_def)
    with heap_blocks_inv[OF inv] good_tl[of F] run i show ?thesis
      by simp
  qed
qed

theorem no_adjacent_free_witness:
  "run [Malloc 8, Malloc 8, Free 4112, Malloc 4056]
       (fst (mm_init (fresh (\<lambda>_. 0) 4096 1048576)), []) = Inr (c2_4, [4144, 4128])
   \<and> (\<exists>bs. heap_blocks c2_4 = Some bs \<and> no_adj_free bs \<and> list_all (\<lambda>b. 16 \<le> fst b) bs)"
proof -
  have h: "(0 :: int) \<le> 4096" "(4096 :: int) + 4112 \<le> 1048576" "(1048576 :: int) - 4096 < 2 ^ 32"
    "list_all no_wrap [Malloc 8, Malloc 8, Free 4112, Malloc 4056]"
    by simp_all
  have r: "run [Malloc 8, Malloc 8, Free 4112, Malloc 4056]
       (fst (mm_init (fresh (\<lambda>_. 0) 4096 1048576)), []) = Inr (c2_4, [4144, 4128])"
    by (simp add: heap0_init c2_1_step c2_2_step c2_3_step c2_4_step NULL_def)
  from no_adjacent_free[OF h, of "\<lambda>_. 0"] r
  have "\<exists>bs. heap_blocks c2_4 = Some bs \<and> no_adj_free bs \<and> list_all (\<lambda>b. 16 \<le> fst b) bs"
    by simp
  with r show ?thesis by blast
qed

text \<open>
  Alignment and minimum size, for requests that do not wrap. On a provider whose
  first address is a multiple of 8, after every such sequence of calls an allocate
  call for \<open>n\<close> bytes, \<open>0 < n \<le> SIZE_MAX - 15\<close>, returns; when the pointer is not
  \<open>NULL\<close> it is a multiple of 8 and the size in the header of its block is at least
  16 and at least \<open>n + 8\<close>.
\<close>

theorem allocate_aligned:
  assumes "0 \<le> start" and "start + 4112 \<le> limit" and "limit - start < 2 ^ 32"
    and "list_all no_wrap cs"
    and al: "8 dvd start" and nz: "n \<noteq> 0" and nw: "n \<le> - 16"
    and run: "run cs (fst (mm_init (fresh m start limit)), []) = Inr (s, live)"
  shows "\<exists>s' p. mm_malloc s n = Some (s', p)
      \<and> (p = NULL \<or> 8 dvd p \<and> 16 \<le> uint (GET_SIZE (mem s') (HEAD p))
                     \<and> uint n + 8 \<le> uint (GET_SIZE (mem s') (HEAD p)))"
proof -
  from run_from_init[OF assms(1-4), of m] run
  obtain F where inv: "heap_inv s F" and h: "heapL s = start + 8"
    by auto
  from mm_malloc_inv[OF inv nz nw]
  obtain s' p F' where m: "mm_malloc s n = Some (s', p)" and inv': "heap_inv s' F'"
    and h': "heapL s' = heapL s"
    and pp: "if p = NULL then s' = s \<and> F' = F
          else \<exists>xs c ys. F' = xs @ (c, True) # ys \<and> xs \<noteq> [] \<and> p = heapL s + total xs
              \<and> uint n + 8 \<le> c
              \<and> set (allocd (heapL s) F') = insert p (set (allocd (heapL s) F))"
    by blast
  show ?thesis
  proof (cases "p = NULL")
    case True
    with m show ?thesis by simp
  next
    case False
    with pp obtain xs c ys where F': "F' = xs @ (c, True) # ys" and ne: "xs \<noteq> []"
      and pe: "p = heapL s + total xs" and c: "uint n + 8 \<le> c"
      by auto
    from inv' have l: "laid (mem s') (heapL s) F'" and g: "good F'"
      by (simp_all add: heap_inv_def h')
    from l have cx: "chain (mem s') (heapL s) xs" and b: "blk (mem s') p (c, True)"
      by (simp_all add: laid_def F' chain_append pe)
    from chain_dvd[OF cx] al have "8 dvd p"
      by (simp add: pe h)
    moreover from ne have "(c, True) \<in> set (tl F')"
      by (cases xs) (simp_all add: F')
    with good_tl[OF g] have "16 \<le> c"
      by (auto simp: list_all_iff)
    ultimately show ?thesis
      using m c blk_GET_SIZE(1)[OF b] by simp
  qed
qed

theorem allocate_aligned_witness:
  "mm_malloc heap0 100 = Some (c9_1, 4112)
   \<and> (8 :: int) dvd 4112 \<and> 16 \<le> uint (GET_SIZE (mem c9_1) (HEAD 4112))
   \<and> uint (100 :: size_t) + 8 \<le> uint (GET_SIZE (mem c9_1) (HEAD 4112))"
proof -
  have h: "(0 :: int) \<le> 4096" "(4096 :: int) + 4112 \<le> 1048576" "(1048576 :: int) - 4096 < 2 ^ 32"
    "list_all no_wrap []" "(8 :: int) dvd 4096" "(100 :: size_t) \<noteq> 0" "(100 :: size_t) \<le> - 16"
    by simp_all
  have r: "run [] (fst (mm_init (fresh (\<lambda>_. 0) 4096 1048576)), []) = Inr (heap0, [])"
    by (simp add: heap0_init)
  from allocate_aligned[OF h r] show ?thesis
    by (simp add: c9_1_step NULL_def)
qed

text \<open>
  The search cursor, for requests that do not wrap. After every such sequence of
  calls the cursor is the payload pointer of the start sentinel or of one of the
  blocks that the forward scan meets, and so lies within the heap.
\<close>

theorem cursor_valid:
  assumes "0 \<le> start" and "start + 4112 \<le> limit" and "limit - start < 2 ^ 32"
    and "list_all no_wrap cs"
  shows "case run cs (fst (mm_init (fresh m start limit)), []) of
           Inl e \<Rightarrow> e = InvalidFree
         | Inr (s, live) \<Rightarrow>
             (\<exists>bs. heap_blocks s = Some bs
                \<and> trav s \<in> set (starts (start + 8) ((8, True) # bs))
                \<and> start + 8 \<le> trav s \<and> trav s < mem_brk s)"
proof -
  from run_from_init[OF assms, of m]
  obtain s0 where i: "mm_init (fresh m start limit) = (s0, 0)"
    and r: "run cs (s0, []) = Inl InvalidFree
         \<or> (\<exists>s live F. run cs (s0, []) = Inr (s, live) \<and> heap_inv s F \<and> heapL s = start + 8
               \<and> set live \<subseteq> set (allocd (heapL s) F) - {heapL s})"
    by blast
  from r show ?thesis
  proof
    assume "run cs (s0, []) = Inl InvalidFree"
    with i show ?thesis by simp
  next
    assume "\<exists>s live F. run cs (s0, []) = Inr (s, live) \<and> heap_inv s F \<and> heapL s = start + 8
               \<and> set live \<subseteq> set (allocd (heapL s) F) - {heapL s}"
    then obtain s live F where run: "run cs (s0, []) = Inr (s, live)" and inv: "heap_inv s F"
      and h: "heapL s = start + 8"
      by blast
    from heap_inv_blocks[OF inv] obtain bs where F: "F = (8, True) # bs" by blast
    from inv have t: "trav s \<in> set (starts (start + 8) F)" and b: "mem_brk s = start + 8 + total F"
      and c: "chain (mem s) (heapL s) F"
      by (simp_all add: heap_inv_def h laid_def)
    have "start + 8 \<le> trav s \<and> trav s < start + 8 + total F"
    proof (rule starts_bounds[OF _ t])
      fix b assume "b \<in> set F"
      from chain_sizes[OF c this] show "0 < fst b" by simp
    qed
    with heap_blocks_inv[OF inv] F run i t b show ?thesis
      by simp
  qed
qed

theorem cursor_valid_witness:
  "run [Malloc 8, Malloc 8, Free 4112, Malloc 4056]
       (fst (mm_init (fresh (\<lambda>_. 0) 4096 1048576)), []) = Inr (c2_4, [4144, 4128])
   \<and> (\<exists>bs. heap_blocks c2_4 = Some bs
        \<and> trav c2_4 \<in> set (starts (4096 + 8) ((8, True) # bs))
        \<and> 4096 + 8 \<le> trav c2_4 \<and> trav c2_4 < mem_brk c2_4)"
proof -
  have h: "(0 :: int) \<le> 4096" "(4096 :: int) + 4112 \<le> 1048576" "(1048576 :: int) - 4096 < 2 ^ 32"
    "list_all no_wrap [Malloc 8, Malloc 8, Free 4112, Malloc 4056]"
    by simp_all
  have r: "run [Malloc 8, Malloc 8, Free 4112, Malloc 4056]
       (fst (mm_init (fresh (\<lambda>_. 0) 4096 1048576)), []) = Inr (c2_4, [4144, 4128])"
    by (simp add: heap0_init c2_1_step c2_2_step c2_3_step c2_4_step NULL_def)
  from cursor_valid[OF h, of "\<lambda>_. 0"] r
  have "\<exists>bs. heap_blocks c2_4 = Some bs
        \<and> trav c2_4 \<in> set (starts (4096 + 8) ((8, True) # bs))
        \<and> 4096 + 8 \<le> trav c2_4 \<and> trav c2_4 < mem_brk c2_4"
    by simp
  with r show ?thesis by blast
qed

section \<open>The cursor after coalescing\<close>

lemma starts_not_inside:
  assumes x: "x \<in> set (starts h (xs @ b # ys))"
    and pos: "\<And>c. c \<in> set (xs @ b # ys) \<Longrightarrow> 0 < fst c"
  shows "\<not> (h + total xs < x \<and> x < h + total xs + fst b)"
proof -
  from x consider (x) "x \<in> set (starts h xs)" | (b) "x = h + total xs"
    | (y) "x \<in> set (starts (h + total xs + fst b) ys)"
    by (auto simp: starts_append)
  then show ?thesis
  proof cases
    case x
    then have "x < h + total xs"
      using starts_bounds[of xs x h] pos by auto
    then show ?thesis by simp
  next
    case b
    then show ?thesis by simp
  next
    case y
    then have "h + total xs + fst b \<le> x"
      using starts_bounds[of ys x "h + total xs + fst b"] pos by auto
    then show ?thesis by simp
  qed
qed

lemma trav_retarget:
  "trav (retarget (s\<lparr>mem := W\<rparr>) lo hi) = (if lo < trav s \<and> trav s < hi then lo else trav s)"
  by (simp add: retarget_def)

text \<open>
  The cursor after a coalescing step. \<open>coalesce\<close> is called on a free block of \<open>n\<close>
  bytes at \<open>p\<close> in a well-formed heap; the block before it has \<open>pn\<close> bytes and the
  allocated flag \<open>pa\<close>. The resulting block starts at \<open>q\<close>, which is \<open>p\<close>, or the start
  of the block before when that one is free, and ends where the block at \<open>p\<close> ends, or
  where the block after it ends when that one is free. A cursor strictly inside the
  resulting block is moved to \<open>q\<close>; any other cursor stays.
\<close>

theorem coalesce_cursor:
  assumes l: "laid (mem s) h (xs @ (pn, pa) # (n, False) # ys)"
    and p: "p = h + total xs + pn"
    and bound: "total (xs @ (pn, pa) # (n, False) # ys) < 2 ^ 32"
    and t: "trav s \<in> set (starts h (xs @ (pn, pa) # (n, False) # ys))"
  shows "trav (fst (coalesce s p)) =
     (if (if pa then p else p - pn) < trav s \<and> trav s < p + n + next_free_size ys
      then (if pa then p else p - pn) else trav s)"
proof -
  let ?m = "mem s" and ?q = "h + total xs"
  let ?F = "xs @ (pn, pa) # (n, False) # ys"
  from l have cx: "chain ?m h xs" and bp: "blk ?m ?q (pn, pa)" and bo: "blk ?m p (n, False)"
    and cy: "chain ?m (p + n) ys" and cF: "chain ?m h ?F"
    by (simp_all add: laid_def chain_append p add.assoc)
  have x0: "0 \<le> total xs" and y0: "0 \<le> total ys"
    using cx cy by (auto dest: chain_total_nonneg)
  have pos: "\<And>b. b \<in> set ?F \<Longrightarrow> 0 < fst b"
  proof -
    fix b assume "b \<in> set ?F"
    from chain_sizes[OF cF this] show "0 < fst b" by simp
  qed
  have "\<not> (h + total (xs @ [(pn, pa)]) < trav s
          \<and> trav s < h + total (xs @ [(pn, pa)]) + fst (n, False))"
    by (rule starts_not_inside[where ys = ys]) (use t pos in simp_all)
  then have out: "\<not> (p < trav s \<and> trav s < p + n)"
    by (simp add: p add.assoc)
  from bo have own: "READ ?m (p - 4) = tag n False" "8 dvd n" "8 \<le> n"
    by (simp_all add: blk_def)
  from bp have prev: "READ ?m (p - 8) = tag pn pa" "READ ?m (p - pn - 4) = tag pn pa"
    "8 dvd pn" "8 \<le> pn"
    by (simp_all add: blk_def p add.assoc)
  have nexta: "trav (fst (coalesce s p)) =
     (if (if pa then p else p - pn) < trav s \<and> trav s < p + n
      then (if pa then p else p - pn) else trav s)"
    if nxt: "READ ?m (p + n - 4) = tag nn True" "8 dvd nn" "0 \<le> nn" "nn \<le> total ys" for nn
  proof -
    have bd: "pn + n + nn < 2 ^ 32" using bound x0 nxt(4) by simp
    show ?thesis
    proof (cases pa)
      case True
      with prev have prevT: "READ ?m (p - 8) = tag pn True" by simp
      have "coalesce s p = (s, p)"
        by (rule coalesce_none[OF own prevT prev(2,3,4) nxt(1,2,3) bd])
      then show ?thesis
        using out True by simp
    next
      case False
      with prev have prevF: "READ ?m (p - 8) = tag pn False" by simp
      show ?thesis
        by (simp add: coalesce_prev[OF own prevF prev(2,3,4) nxt(1,2,3) bd] trav_retarget False)
    qed
  qed
  consider (e) "ys = []" | (a) nn ys' where "ys = (nn, True) # ys'"
    | (f) nn ys' where "ys = (nn, False) # ys'"
    by (cases ys) auto
  then show ?thesis
  proof cases
    case e
    from l have "READ ?m (p + n - 4) = tag 0 True"
      by (simp add: laid_def e p add.assoc)
    from nexta[OF this] show ?thesis
      by (simp add: e)
  next
    case a
    from cy have bn: "blk ?m (p + n) (nn, True)" and y': "0 \<le> total ys'"
      by (auto simp: a dest: chain_total_nonneg)
    then have "READ ?m (p + n - 4) = tag nn True" "8 dvd nn" "0 \<le> nn" "nn \<le> total ys"
      by (simp_all add: blk_def a)
    from nexta[OF this] show ?thesis
      by (simp add: a)
  next
    case f
    from cy have bn: "blk ?m (p + n) (nn, False)" and y': "0 \<le> total ys'"
      by (auto simp: f dest: chain_total_nonneg)
    then have nxt: "READ ?m (p + n - 4) = tag nn False" "8 dvd nn" "0 \<le> nn"
      and nn8: "8 \<le> nn" and nfoot: "READ ?m (p + n + nn - 8) = tag nn False"
      by (simp_all add: blk_def)
    have bd: "pn + n + nn < 2 ^ 32" using bound x0 y' by (simp add: f)
    show ?thesis
    proof (cases pa)
      case True
      with prev have prevT: "READ ?m (p - 8) = tag pn True" by simp
      show ?thesis
        by (simp add: coalesce_next[OF own prevT prev(2,3,4) nxt bd] trav_retarget True f)
    next
      case False
      with prev have prevF: "READ ?m (p - 8) = tag pn False" by simp
      show ?thesis
        by (simp add: coalesce_both[OF own prevF prev(2,3,4) nxt nfoot bd] trav_retarget False f)
    qed
  qed
qed


definition merging :: state where
  "merging = c2_3\<lparr>mem := WRITE (WRITE (mem c2_3) 4124 16) 4136 16\<rparr>"

theorem coalesce_cursor_witness:
  "laid (mem merging) 4104 ([(8, True)] @ (16, False) # (16, False) # [(4064, False)])
   \<and> trav merging = 4128
   \<and> trav (fst (coalesce merging 4128)) = 4112"
proof -
  have l: "laid (mem merging) 4104 ([(8, True)] @ (16, False) # (16, False) # [(4064, False)])"
    by (simp add: merging_def c2_3_def laid_def blk_def tag_def READ_WRITE READ_zero)
  have p: "(4128 :: int) = 4104 + total [(8, True)] + 16"
    by simp
  have b: "total ([(8, True)] @ (16, False) # (16, False) # [(4064, False)]) < 2 ^ 32"
    by simp
  have t: "trav merging = 4128"
    by (simp add: merging_def c2_3_def)
  have t': "trav merging \<in> set (starts 4104 ([(8, True)] @ (16, False) # (16, False) # [(4064, False)]))"
    by (simp add: t)
  from coalesce_cursor[OF l p b t'] l t show ?thesis
    by simp
qed

end
